theory Spec2Isabelle
  imports Main "HOL-Library.Word"
begin

section \<open>Data model of the sync engine (engine.go)\<close>

text \<open>
  Times and durations are Go \<open>int64\<close> nanosecond counts (\<open>time.Now().UnixNano()\<close>,
  \<open>time.Duration\<close>): 64-bit words whose subtraction wraps and whose comparisons are
  signed, read through \<open>sint\<close>. The counters \<open>BatchSize\<close>, \<open>MaxRetry\<close> and the attempt
  counts are Go \<open>int\<close>; they are modelled as \<open>int\<close>, and every reachable attempt count
  is shown below to stay between 0 and \<open>max 1 MaxRetry\<close>, away from any wrap-around.
\<close>

type_synonym int64 = "64 word"

text \<open>
  \<open>SyncItem\<close> is an interface with the methods \<open>Key\<close>, \<open>Group\<close> and \<open>Timestamp\<close>. An
  item is a value answering the three methods, together with a payload the engine never
  reads (the \<open>content\<close> of \<open>MyItem\<close> in example_test.go).
\<close>

record SyncItem =
  Key :: string
  Group :: string
  Timestamp :: int64
  content :: string

text \<open>
  \<open>itemGroup\<close>: the two Go maps are partial maps; reading \<open>attempts[key]\<close> of an
  absent key gives the zero value.
\<close>

record itemGroup =
  items :: "string \<rightharpoonup> SyncItem"
  attempts :: "string \<rightharpoonup> int"
  lastSent :: int64

text \<open>The run-time panics of the Go code that the model can reach.\<close>

datatype panic =
  NilDereference
  | SliceBoundsOutOfRange
  | CloseOfClosedChannel
  | CallbackPanic string

text \<open>
  \<open>Config\<close>. A function-typed field is \<open>None\<close> when it is \<open>nil\<close>. A callback is
  user code: it returns \<open>None\<close> when it returns normally and \<open>Some p\<close> when it
  panics with \<open>p\<close>. The logger receives the format string and the arguments. The
  \<open>Executor\<close> field is not a field of the model: \<open>Submit\<close> hands the task over for
  execution, and the model returns the submitted task as the output of the visit.
\<close>

record Config =
  BatchSize :: int
  MaxRetry :: int
  FlushAfter :: int64
  RetryAfter :: int64
  Tick :: int64
  OnDispatch :: "(string \<Rightarrow> SyncItem list \<Rightarrow> panic option) option"
  Logger :: "(string \<Rightarrow> panic list \<Rightarrow> panic option) option"

datatype chan = Open | Closed

record SyncEngine =
  cache :: "string \<rightharpoonup> itemGroup"
  cfg :: Config
  stop :: chan

text \<open>A task handed to \<open>executor.Submit\<close>: the start message of its loop, the group, the batch.\<close>

record task =
  startMsg :: string
  taskGroup :: string
  batch :: "SyncItem list"

section \<open>Engine operations\<close>

definition NewEngine :: "Config \<Rightarrow> SyncEngine" where
  "NewEngine c = \<lparr>cache = Map.empty, cfg = c, stop = Open\<rparr>"

text \<open>\<open>Stop\<close> closes the stop channel; closing a closed channel panics.\<close>

definition Stop :: "SyncEngine \<Rightarrow> panic + SyncEngine" where
  "Stop e = (case stop e of
               Closed \<Rightarrow> Inl CloseOfClosedChannel
             | Open \<Rightarrow> Inr (e\<lparr>stop := Closed\<rparr>))"

definition newItemGroup :: itemGroup where
  "newItemGroup = \<lparr>items = Map.empty, attempts = Map.empty, lastSent = 0\<rparr>"

text \<open>\<open>Add\<close>: \<open>LoadOrStore\<close> of the group's record, then \<open>ig.items[item.Key()] = item\<close>.\<close>

definition Add :: "SyncItem \<Rightarrow> SyncEngine \<Rightarrow> SyncEngine" where
  "Add item e =
     (let ig = (case cache e (Group item) of None \<Rightarrow> newItemGroup | Some g \<Rightarrow> g)
      in e\<lparr>cache := (cache e)(Group item \<mapsto> ig\<lparr>items := (items ig)(Key item \<mapsto> item)\<rparr>)\<rparr>)"

text \<open>The loop of \<open>Ack\<close>: both maps lose each key, in the order of the list.\<close>

fun ackKeys :: "string list \<Rightarrow> itemGroup \<Rightarrow> itemGroup" where
  "ackKeys [] ig = ig"
| "ackKeys (k # ks) ig =
     ackKeys ks (ig\<lparr>items := (items ig)(k := None), attempts := (attempts ig)(k := None)\<rparr>)"

definition Ack :: "string \<Rightarrow> string list \<Rightarrow> SyncEngine \<Rightarrow> SyncEngine" where
  "Ack grp keys e =
     (case cache e grp of
        None \<Rightarrow> e
      | Some ig \<Rightarrow> e\<lparr>cache := (cache e)(grp \<mapsto> ackKeys keys ig)\<rparr>)"

section \<open>Iterating a Go map\<close>

text \<open>
  \<open>for key, it := range ig.items\<close> visits every key of the map once, in an order Go
  leaves unspecified. The order is a parameter of each visit: a list of keys, which is an
  order of the map when it is \<open>rangeOrder\<close>.
\<close>

definition rangeOrder :: "itemGroup \<Rightarrow> string list \<Rightarrow> bool" where
  "rangeOrder ig order \<longleftrightarrow> distinct order \<and> set order = dom (items ig)"

definition rangeItems :: "itemGroup \<Rightarrow> string list \<Rightarrow> (string \<times> SyncItem) list" where
  "rangeItems ig order = List.map_filter (\<lambda>k. map_option (Pair k) (items ig k)) order"

text \<open>\<open>a[key]\<close> on a Go map of ints.\<close>

definition att :: "(string \<rightharpoonup> int) \<Rightarrow> string \<Rightarrow> int" where
  "att a k = (case a k of None \<Rightarrow> 0 | Some n \<Rightarrow> n)"

definition attemptsOf :: "itemGroup \<Rightarrow> string \<Rightarrow> int" where
  "attemptsOf ig k = att (attempts ig) k"

section \<open>The dispatch loop\<close>

text \<open>Lines 90 to 95: the items whose attempt count is 0, in the order of the iteration.\<close>

definition unsentOf :: "itemGroup \<Rightarrow> string list \<Rightarrow> SyncItem list" where
  "unsentOf ig order =
     map snd (filter (\<lambda>(key, it). attemptsOf ig key = 0) (rangeItems ig order))"

text \<open>Line 96.\<close>

definition shouldFlush :: "Config \<Rightarrow> int64 \<Rightarrow> itemGroup \<Rightarrow> SyncItem list \<Rightarrow> bool" where
  "shouldFlush c now ig unsent \<longleftrightarrow>
     BatchSize c \<le> int (length unsent) \<or> sint (FlushAfter c) < sint (now - lastSent ig)"

text \<open>Lines 101 to 103: \<open>ig.attempts[b.Key()]++\<close> for every item of the batch.\<close>

fun bumpAll :: "SyncItem list \<Rightarrow> (string \<rightharpoonup> int) \<Rightarrow> (string \<rightharpoonup> int)" where
  "bumpAll [] a = a"
| "bumpAll (b # bs) a = bumpAll bs (a(Key b \<mapsto> att a (Key b) + 1))"

text \<open>
  The body of the \<open>Range\<close> callback of the dispatch loop for the group \<open>k\<close>, under the
  group's lock. \<open>now\<close> is the clock reading of the tick, \<open>now'\<close> the second reading
  stored in \<open>lastSent\<close>. Slicing \<open>unsent[:n]\<close> with a negative \<open>n\<close> panics.
\<close>

definition dispatchVisit ::
  "Config \<Rightarrow> int64 \<Rightarrow> int64 \<Rightarrow> string list \<Rightarrow> string \<Rightarrow> itemGroup
     \<Rightarrow> panic + (itemGroup \<times> task option)" where
  "dispatchVisit c now now' order k ig =
     (let unsent = unsentOf ig order in
      if 0 < length unsent \<and> shouldFlush c now ig unsent then
        (let n = min (BatchSize c) (int (length unsent)) in
         if n < 0 then Inl SliceBoundsOutOfRange
         else
           (let b = take (nat n) unsent in
            Inr (ig\<lparr>attempts := bumpAll b (attempts ig), lastSent := now'\<rparr>,
                 Some \<lparr>startMsg = ''start dispatch...'', taskGroup = k, batch = b\<rparr>)))
      else Inr (ig, None))"

section \<open>The retry loop\<close>

text \<open>
  Lines 154 to 160: every item whose attempt count is below \<open>MaxRetry\<close> has the count
  incremented and joins \<open>retryable\<close>.
\<close>

fun retryScan ::
  "Config \<Rightarrow> (string \<times> SyncItem) list \<Rightarrow> (string \<rightharpoonup> int) \<Rightarrow> SyncItem list
     \<Rightarrow> (string \<rightharpoonup> int) \<times> SyncItem list" where
  "retryScan c [] a retryable = (a, retryable)"
| "retryScan c ((key, it) # rest) a retryable =
     (if att a key < MaxRetry c
      then retryScan c rest (a(key \<mapsto> att a key + 1)) (retryable @ [it])
      else retryScan c rest a retryable)"

definition retryVisit ::
  "Config \<Rightarrow> int64 \<Rightarrow> string list \<Rightarrow> string \<Rightarrow> itemGroup \<Rightarrow> itemGroup \<times> task option" where
  "retryVisit c now order grp ig =
     (if dom (items ig) = {} then (ig, None)
      else if lastSent ig = 0 then (ig, None)
      else if sint (now - lastSent ig) < sint (RetryAfter c) then (ig, None)
      else
        (case retryScan c (rangeItems ig order) (attempts ig) [] of
           (a, retryable) \<Rightarrow>
             if 0 < length retryable
             then (ig\<lparr>attempts := a, lastSent := now\<rparr>,
                   Some \<lparr>startMsg = ''start retrying...'', taskGroup = grp, batch = retryable\<rparr>)
             else (ig\<lparr>attempts := a\<rparr>, None)))"

section \<open>A tick of a loop\<close>

text \<open>
  \<open>e.cache.Range\<close> calls the visit for the groups of the cache, in an order and with a
  choice of groups that \<open>sync.Map\<close> leaves open when groups are added meanwhile. A tick
  is given the list of its visits: the group, the order in which the items of the group
  are iterated, and the clock reading the dispatch loop stores in \<open>lastSent\<close>. It returns
  the tasks it submitted, or the panic of a visit: nothing in the loop recovers it.
\<close>

type_synonym visit = "string \<times> string list \<times> int64"

fun emitted :: "task option \<Rightarrow> task list" where
  "emitted None = []"
| "emitted (Some t) = [t]"

fun dispatchTick :: "int64 \<Rightarrow> visit list \<Rightarrow> SyncEngine \<Rightarrow> panic + (SyncEngine \<times> task list)" where
  "dispatchTick now [] e = Inr (e, [])"
| "dispatchTick now ((k, order, now') # vs) e =
     (case cache e k of
        None \<Rightarrow> dispatchTick now vs e
      | Some ig \<Rightarrow>
          (case dispatchVisit (cfg e) now now' order k ig of
             Inl p \<Rightarrow> Inl p
           | Inr (ig', t) \<Rightarrow>
               (case dispatchTick now vs (e\<lparr>cache := (cache e)(k \<mapsto> ig')\<rparr>) of
                  Inl p \<Rightarrow> Inl p
                | Inr (e', ts) \<Rightarrow> Inr (e', emitted t @ ts))))"

fun retryTick :: "int64 \<Rightarrow> visit list \<Rightarrow> SyncEngine \<Rightarrow> SyncEngine \<times> task list" where
  "retryTick now [] e = (e, [])"
| "retryTick now ((k, order, now') # vs) e =
     (case cache e k of
        None \<Rightarrow> retryTick now vs e
      | Some ig \<Rightarrow>
          (case retryVisit (cfg e) now order k ig of
             (ig', t) \<Rightarrow>
               (case retryTick now vs (e\<lparr>cache := (cache e)(k \<mapsto> ig')\<rparr>) of
                  (e', ts) \<Rightarrow> (e', emitted t @ ts))))"

text \<open>The visits of a tick iterate each group in an order of its items.\<close>

definition validVisits :: "SyncEngine \<Rightarrow> visit list \<Rightarrow> bool" where
  "validVisits e vs \<longleftrightarrow>
     (\<forall>v \<in> set vs. \<forall>ig. cache e (fst v) = Some ig \<longrightarrow> rangeOrder ig (fst (snd v)))"

section \<open>The submitted task\<close>

text \<open>
  What a task does is a trace of the calls it makes and the panic that leaves it, if any.
  Calling a nil function value panics before anything is called.
\<close>

datatype event =
  Logged string "panic list"
  | Dispatched string "SyncItem list"

definition callLogger :: "Config \<Rightarrow> string \<Rightarrow> panic list \<Rightarrow> event list \<times> panic option" where
  "callLogger c fmt args =
     (case Logger c of
        None \<Rightarrow> ([], Some NilDereference)
      | Some lg \<Rightarrow> ([Logged fmt args], lg fmt args))"

definition callOnDispatch :: "Config \<Rightarrow> string \<Rightarrow> SyncItem list \<Rightarrow> event list \<times> panic option" where
  "callOnDispatch c g b =
     (case OnDispatch c of
        None \<Rightarrow> ([], Some NilDereference)
      | Some f \<Rightarrow> ([Dispatched g b], f g b))"

text \<open>The two statements of the task after the \<open>defer\<close>: log the start, call the callback.\<close>

definition taskBody :: "Config \<Rightarrow> task \<Rightarrow> event list \<times> panic option" where
  "taskBody c t =
     (case callLogger c (startMsg t) [] of
        (ev, Some p) \<Rightarrow> (ev, Some p)
      | (ev, None) \<Rightarrow>
          (case callOnDispatch c (taskGroup t) (batch t) of (ev', r) \<Rightarrow> (ev @ ev', r)))"

text \<open>
  The deferred function runs when the body has returned or panicked: \<open>recover()\<close> gives
  the panic of the body, which is then logged. A panic raised inside the deferred
  function is not recovered by anyone and leaves the task.
\<close>

definition runTask :: "Config \<Rightarrow> task \<Rightarrow> event list \<times> panic option" where
  "runTask c t =
     (case taskBody c t of
        (ev, None) \<Rightarrow> (ev, None)
      | (ev, Some r) \<Rightarrow>
          (case callLogger c ''[WARN] dispatch panic: %v'' [r] of (ev', p) \<Rightarrow> (ev @ ev', p)))"

section \<open>The engine as a transition system\<close>

text \<open>
  \<open>Add\<close>, \<open>Ack\<close>, the visit of one group by the dispatch loop and the visit of one group
  by the retry loop each run under the lock of the group: they are the atomic steps. A
  tick of a loop is a sequence of visits, and the callers' operations interleave with
  them. The cache never loses a group, and the \<open>select\<close> of a loop may still take a tick
  after \<open>Stop\<close>, so a closed stop channel disables no step but \<open>Stop\<close>. \<open>Start\<close> and the
  tickers are not modelled: a visit may happen at any time, with any clock reading.
\<close>

inductive step :: "SyncEngine \<Rightarrow> SyncEngine \<Rightarrow> bool" where
  stepAdd: "step e (Add item e)"
| stepAck: "step e (Ack grp keys e)"
| stepDispatch:
    "cache e k = Some ig \<Longrightarrow> rangeOrder ig order
     \<Longrightarrow> dispatchVisit (cfg e) now now' order k ig = Inr (ig', t)
     \<Longrightarrow> step e (e\<lparr>cache := (cache e)(k \<mapsto> ig')\<rparr>)"
| stepRetry:
    "cache e k = Some ig \<Longrightarrow> rangeOrder ig order
     \<Longrightarrow> retryVisit (cfg e) now order k ig = (ig', t)
     \<Longrightarrow> step e (e\<lparr>cache := (cache e)(k \<mapsto> ig')\<rparr>)"
| stepStop: "Stop e = Inr e' \<Longrightarrow> step e e'"

text \<open>\<open>path e es\<close>: the engine goes from \<open>e\<close> through the states \<open>es\<close>, one step each.\<close>

fun path :: "SyncEngine \<Rightarrow> SyncEngine list \<Rightarrow> bool" where
  "path e [] = True"
| "path e (e' # es) = (step e e' \<and> path e' es)"

definition reachable :: "Config \<Rightarrow> SyncEngine \<Rightarrow> bool" where
  "reachable c e \<longleftrightarrow> (\<exists>es. path (NewEngine c) es \<and> last (NewEngine c # es) = e)"

text \<open>
  The invariant of a group record: an item is stored under its own key, and every
  attempt count lies between 0 and \<open>max 1 MaxRetry\<close>.
\<close>

definition groupInv :: "Config \<Rightarrow> itemGroup \<Rightarrow> bool" where
  "groupInv c ig \<longleftrightarrow>
     (\<forall>k it. items ig k = Some it \<longrightarrow> Key it = k) \<and>
     (\<forall>k. 0 \<le> attemptsOf ig k \<and> attemptsOf ig k \<le> max 1 (MaxRetry c))"

definition engineInv :: "Config \<Rightarrow> SyncEngine \<Rightarrow> bool" where
  "engineInv c e \<longleftrightarrow> cfg e = c \<and> (\<forall>k ig. cache e k = Some ig \<longrightarrow> groupInv c ig)"

section \<open>Concrete engines\<close>

text \<open>An item of the group JP101, as example_test.go builds them.\<close>

definition exItem :: "string \<Rightarrow> string \<Rightarrow> SyncItem" where
  "exItem k v = \<lparr>Key = k, Group = ''JP101'', Timestamp = 0, content = v\<rparr>"

definition cfgExample :: Config where
  "cfgExample =
     \<lparr>BatchSize = 2, MaxRetry = 3, FlushAfter = 1000000000, RetryAfter = 10000000000,
      Tick = 2000000000, OnDispatch = Some (\<lambda>g b. None), Logger = Some (\<lambda>f a. None)\<rparr>"

definition cfgNoLogger :: Config where
  "cfgNoLogger = cfgExample\<lparr>Logger := None\<rparr>"

definition cfgNilCallback :: Config where
  "cfgNilCallback = cfgExample\<lparr>OnDispatch := None\<rparr>"

text \<open>A group record given by its entries: key, item and attempt count.\<close>

definition groupOf :: "(string \<times> SyncItem \<times> int) list \<Rightarrow> int64 \<Rightarrow> itemGroup" where
  "groupOf xs t =
     \<lparr>items = map_of (map (\<lambda>(k, it, n). (k, it)) xs),
      attempts = map_of (map (\<lambda>(k, it, n). (k, n)) xs), lastSent = t\<rparr>"

definition cfgNoRetry :: Config where
  "cfgNoRetry = cfgExample\<lparr>MaxRetry := 0\<rparr>"

text \<open>A flush deadline of one hour.\<close>

definition cfgHourly :: Config where
  "cfgHourly = cfgExample\<lparr>FlushAfter := 3600000000000\<rparr>"

definition cfgNegBatch :: Config where
  "cfgNegBatch = cfgExample\<lparr>BatchSize := - 1\<rparr>"

text \<open>Three items added to a new engine, and the record of their group.\<close>

definition exEngine :: "Config \<Rightarrow> SyncEngine" where
  "exEngine c =
     Add (exItem ''ORD_002'' ''2'') (Add (exItem ''ORD_001'' ''1'')
       (Add (exItem ''ORD_000'' ''0'') (NewEngine c)))"

definition exGroup :: itemGroup where
  "exGroup =
     \<lparr>items = [''ORD_000'' \<mapsto> exItem ''ORD_000'' ''0'', ''ORD_001'' \<mapsto> exItem ''ORD_001'' ''1'',
               ''ORD_002'' \<mapsto> exItem ''ORD_002'' ''2''],
      attempts = Map.empty, lastSent = 0\<rparr>"

definition cfgOnce :: Config where
  "cfgOnce = cfgExample\<lparr>MaxRetry := 1\<rparr>"

text \<open>An engine whose only item has been dispatched once, at the time \<open>t\<close>.\<close>

definition dispatchedOnce :: "Config \<Rightarrow> int64 \<Rightarrow> SyncEngine" where
  "dispatchedOnce c t =
     (Add (exItem ''ORD_000'' ''0'') (NewEngine c))
       \<lparr>cache := [''JP101'' \<mapsto> groupOf [(''ORD_000'', exItem ''ORD_000'' ''0'', 1)] t]\<rparr>"

text \<open>
  Whether the key \<open>k\<close> is among the items of the group \<open>g\<close>, and its stored attempt
  count there.
\<close>

definition present :: "string \<Rightarrow> string \<Rightarrow> SyncEngine \<Rightarrow> bool" where
  "present g k e = (case cache e g of None \<Rightarrow> False | Some ig \<Rightarrow> items ig k \<noteq> None)"

definition attemptsAt :: "string \<Rightarrow> string \<Rightarrow> SyncEngine \<Rightarrow> int" where
  "attemptsAt g k e = (case cache e g of None \<Rightarrow> 0 | Some ig \<Rightarrow> attemptsOf ig k)"

section \<open>Iteration, the batch loop and the retry scan\<close>

lemma rangeItems_Nil: "rangeItems ig [] = []"
  by (simp add: rangeItems_def)

lemma rangeItems_Cons:
  "rangeItems ig (k # ks) = (case items ig k of None \<Rightarrow> rangeItems ig ks | Some it \<Rightarrow> (k, it) # rangeItems ig ks)"
  by (simp add: rangeItems_def split: option.splits)

lemma set_rangeItems: "set (rangeItems ig order) = {(k, it). k \<in> set order \<and> items ig k = Some it}"
  by (induction order) (auto simp: rangeItems_Nil rangeItems_Cons split: option.splits)

lemma fst_rangeItems: "map fst (rangeItems ig order) = filter (\<lambda>k. k \<in> dom (items ig)) order"
  by (induction order) (auto simp: rangeItems_Nil rangeItems_Cons split: option.splits)

lemma distinct_rangeItems: "distinct order \<Longrightarrow> distinct (map fst (rangeItems ig order))"
  by (simp add: fst_rangeItems)

lemma rangeOrder_set: "rangeOrder ig order \<Longrightarrow> set (rangeItems ig order) = {(k, it). items ig k = Some it}"
  by (auto simp: set_rangeItems rangeOrder_def)

lemma att_bumpAll:
  "distinct (map Key b) \<Longrightarrow> att (bumpAll b a) k = (if k \<in> Key ` set b then att a k + 1 else att a k)"
  by (induction b arbitrary: a) (auto simp: att_def)

lemma retryScan_att:
  "distinct (map fst xs) \<Longrightarrow>
   att (fst (retryScan c xs a acc)) k =
     (if k \<in> fst ` set xs \<and> att a k < MaxRetry c then att a k + 1 else att a k)"
proof (induction xs arbitrary: a acc)
  case Nil
  then show ?case by simp
next
  case (Cons x xs)
  obtain key it where x: "x = (key, it)" by (cases x)
  with Cons show ?case by (auto simp: att_def)
qed

lemma retryScan_batch:
  "distinct (map fst xs) \<Longrightarrow>
   snd (retryScan c xs a acc) = acc @ map snd (filter (\<lambda>(key, it). att a key < MaxRetry c) xs)"
proof (induction xs arbitrary: a acc)
  case Nil
  then show ?case by simp
next
  case (Cons x xs)
  obtain key it where x: "x = (key, it)" by (cases x)
  from Cons.prems x have nin: "key \<notin> fst ` set xs" and d: "distinct (map fst xs)" by auto
  have "\<And>k i. (k, i) \<in> set xs \<Longrightarrow> att (a(key \<mapsto> att a key + 1)) k = att a k"
    using nin by (force simp: att_def)
  then have same: "filter (\<lambda>(k, i). att (a(key \<mapsto> att a key + 1)) k < MaxRetry c) xs
            = filter (\<lambda>(k, i). att a k < MaxRetry c) xs"
    by (intro filter_cong) auto
  show ?case using Cons.IH [OF d] x same by (simp del: fun_upd_apply)
qed

section \<open>The invariant holds in every reachable state\<close>

lemma groupInv_new: "groupInv c newItemGroup"
  by (simp add: groupInv_def newItemGroup_def attemptsOf_def att_def)

lemma engineInv_New: "engineInv c (NewEngine c)"
  by (simp add: engineInv_def NewEngine_def)

lemma groupInv_add:
  "groupInv c ig \<Longrightarrow> groupInv c (ig\<lparr>items := (items ig)(Key item \<mapsto> item)\<rparr>)"
  by (auto simp: groupInv_def attemptsOf_def)

lemma engineInv_Add: "engineInv c e \<Longrightarrow> engineInv c (Add item e)"
  by (auto simp: engineInv_def Add_def Let_def groupInv_new groupInv_add split: option.splits)

lemma items_ackKeys: "items (ackKeys ks ig) k = (if k \<in> set ks then None else items ig k)"
  by (induction ks arbitrary: ig) auto

lemma attempts_ackKeys: "attempts (ackKeys ks ig) k = (if k \<in> set ks then None else attempts ig k)"
  by (induction ks arbitrary: ig) auto

lemma lastSent_ackKeys: "lastSent (ackKeys ks ig) = lastSent ig"
  by (induction ks arbitrary: ig) auto

lemma groupInv_ackKeys: "groupInv c ig \<Longrightarrow> groupInv c (ackKeys ks ig)"
  unfolding groupInv_def attemptsOf_def att_def
  by (auto simp: items_ackKeys attempts_ackKeys)

lemma engineInv_Ack: "engineInv c e \<Longrightarrow> engineInv c (Ack grp keys e)"
  by (auto simp: engineInv_def Ack_def groupInv_ackKeys split: option.splits)

lemma unsent_props:
  assumes "it \<in> set (unsentOf ig order)"
  shows "\<exists>k. k \<in> set order \<and> items ig k = Some it \<and> attemptsOf ig k = 0"
  using assms by (auto simp: unsentOf_def set_rangeItems)

lemma distinct_map_snd_keys:
  assumes "distinct (map fst xs)" and "\<forall>(k, it) \<in> set xs. Key it = k"
  shows "distinct (map Key (map snd xs))"
proof -
  have "map Key (map snd xs) = map fst xs"
    using assms(2) by (induction xs) auto
  with assms(1) show ?thesis by (simp only:)
qed

lemma unsent_distinct_keys:
  assumes "\<forall>k it. items ig k = Some it \<longrightarrow> Key it = k" and "distinct order"
  shows "distinct (map Key (unsentOf ig order))"
proof -
  let ?xs = "filter (\<lambda>(key, it). attemptsOf ig key = 0) (rangeItems ig order)"
  have "distinct (map fst ?xs)"
    using distinct_rangeItems [OF assms(2)] by (simp add: distinct_map_filter)
  moreover have "\<forall>(k, it) \<in> set ?xs. Key it = k"
    using assms(1) by (auto simp: set_rangeItems)
  ultimately show ?thesis
    unfolding unsentOf_def by (rule distinct_map_snd_keys)
qed

lemma dispatchVisit_cases:
  assumes "dispatchVisit c now now' order k ig = Inr (ig', t)"
  shows "(ig' = ig \<and> t = None) \<or>
         (\<exists>n. 0 \<le> n \<and> n = min (BatchSize c) (int (length (unsentOf ig order))) \<and>
              ig' = ig\<lparr>attempts := bumpAll (take (nat n) (unsentOf ig order)) (attempts ig), lastSent := now'\<rparr> \<and>
              t = Some \<lparr>startMsg = ''start dispatch...'', taskGroup = k, batch = take (nat n) (unsentOf ig order)\<rparr>)"
  using assms by (auto simp: dispatchVisit_def Let_def split: if_splits)

lemma groupInv_dispatch:
  assumes inv: "groupInv c ig" and ord: "rangeOrder ig order"
    and v: "dispatchVisit c now now' order k ig = Inr (ig', t)"
  shows "groupInv c ig'"
proof -
  from dispatchVisit_cases [OF v] show ?thesis
  proof
    assume "ig' = ig \<and> t = None"
    with inv show ?thesis by simp
  next
    assume "\<exists>n. 0 \<le> n \<and> n = min (BatchSize c) (int (length (unsentOf ig order))) \<and>
              ig' = ig\<lparr>attempts := bumpAll (take (nat n) (unsentOf ig order)) (attempts ig), lastSent := now'\<rparr> \<and>
              t = Some \<lparr>startMsg = ''start dispatch...'', taskGroup = k, batch = take (nat n) (unsentOf ig order)\<rparr>"
    then obtain n where
      ig': "ig' = ig\<lparr>attempts := bumpAll (take (nat n) (unsentOf ig order)) (attempts ig), lastSent := now'\<rparr>"
      by blast
    let ?b = "take (nat n) (unsentOf ig order)"
    from inv have keys: "\<forall>k it. items ig k = Some it \<longrightarrow> Key it = k"
      by (simp add: groupInv_def)
    from ord have "distinct order" by (simp add: rangeOrder_def)
    from unsent_distinct_keys [OF keys this] have d: "distinct (map Key ?b)"
      by (simp add: take_map [symmetric] distinct_take)
    have zero: "attemptsOf ig (Key b) = 0" if "b \<in> set ?b" for b
    proof -
      from that have "b \<in> set (unsentOf ig order)" by (rule in_set_takeD)
      from unsent_props [OF this] keys show ?thesis by auto
    qed
    have "0 \<le> attemptsOf ig' j \<and> attemptsOf ig' j \<le> max 1 (MaxRetry c)" for j
    proof (cases "j \<in> Key ` set ?b")
      case True
      then have "attemptsOf ig j = 0" using zero by auto
      with True show ?thesis by (simp add: ig' attemptsOf_def att_bumpAll [OF d])
    next
      case False
      with inv show ?thesis by (simp add: ig' attemptsOf_def att_bumpAll [OF d] groupInv_def)
    qed
    with keys show ?thesis by (simp add: groupInv_def ig')
  qed
qed

lemma retryVisit_cases:
  assumes "retryVisit c now order grp ig = (ig', t)"
  shows "(ig' = ig \<and> t = None) \<or>
         (attempts ig' = fst (retryScan c (rangeItems ig order) (attempts ig) []) \<and> items ig' = items ig)"
  using assms by (auto simp: retryVisit_def split: if_splits prod.splits)

lemma groupInv_retry:
  assumes inv: "groupInv c ig" and ord: "rangeOrder ig order"
    and v: "retryVisit c now order grp ig = (ig', t)"
  shows "groupInv c ig'"
proof -
  from retryVisit_cases [OF v] show ?thesis
  proof
    assume "ig' = ig \<and> t = None"
    with inv show ?thesis by simp
  next
    assume a: "attempts ig' = fst (retryScan c (rangeItems ig order) (attempts ig) []) \<and> items ig' = items ig"
    from ord have d: "distinct (map fst (rangeItems ig order))"
      by (simp add: rangeOrder_def distinct_rangeItems)
    have "0 \<le> attemptsOf ig' j \<and> attemptsOf ig' j \<le> max 1 (MaxRetry c)" for j
      using inv a by (auto simp: attemptsOf_def retryScan_att [OF d] groupInv_def)
    with inv a show ?thesis by (simp add: groupInv_def)
  qed
qed

lemma engineInv_step: "step e e' \<Longrightarrow> engineInv c e \<Longrightarrow> engineInv c e'"
proof (induction rule: step.induct)
  case (stepAdd e item)
  then show ?case by (rule engineInv_Add)
next
  case (stepAck e grp keys)
  then show ?case by (rule engineInv_Ack)
next
  case (stepDispatch e k ig order now now' ig' t)
  then have "cfg e = c" and "groupInv c ig" by (auto simp: engineInv_def)
  with stepDispatch have "groupInv c ig'" by (auto intro: groupInv_dispatch)
  with stepDispatch.prems show ?case by (auto simp: engineInv_def)
next
  case (stepRetry e k ig order now ig' t)
  then have "cfg e = c" and "groupInv c ig" by (auto simp: engineInv_def)
  with stepRetry have "groupInv c ig'" by (auto intro: groupInv_retry)
  with stepRetry.prems show ?case by (auto simp: engineInv_def)
next
  case (stepStop e e')
  then show ?case by (auto simp: Stop_def engineInv_def split: chan.splits)
qed

lemma engineInv_path: "path e es \<Longrightarrow> engineInv c e \<Longrightarrow> engineInv c (last (e # es))"
  by (induction es arbitrary: e) (auto dest: engineInv_step)

lemma engineInv_path_all: "path e es \<Longrightarrow> engineInv c e \<Longrightarrow> \<forall>s \<in> set (e # es). engineInv c s"
  by (induction es arbitrary: e) (auto dest: engineInv_step)

lemma reachable_engineInv: "reachable c e \<Longrightarrow> engineInv c e"
  unfolding reachable_def using engineInv_path [OF _ engineInv_New] by blast

lemma ackKeys_twice: "ackKeys ks (ackKeys ks ig) = ackKeys ks ig"
  by (rule itemGroup.equality)
     (simp_all add: fun_eq_iff items_ackKeys attempts_ackKeys lastSent_ackKeys)

lemma stop_step: "step e e' \<Longrightarrow> stop e = Closed \<Longrightarrow> stop e' = Closed"
  by (induction rule: step.induct) (auto simp: Add_def Ack_def Stop_def Let_def split: option.splits)

lemma stop_path: "path e es \<Longrightarrow> stop e = Closed \<Longrightarrow> stop (last (e # es)) = Closed"
  by (induction es arbitrary: e) (auto dest: stop_step)

lemma unsentOf_single:
  "unsentOf (groupOf [(k, it, 0)] t) [k] = [it]"
  by (simp add: unsentOf_def groupOf_def rangeItems_def attemptsOf_def att_def)

section \<open>The retry visit in closed form\<close>

lemma retryScan_attempts:
  assumes "distinct (map fst xs)"
  shows "fst (retryScan c xs a acc) =
           (\<lambda>k. if k \<in> fst ` set xs \<and> att a k < MaxRetry c then Some (att a k + 1) else a k)"
  using assms
proof (induction xs arbitrary: a acc)
  case Nil
  then show ?case by simp
next
  case (Cons x xs)
  obtain key it where x: "x = (key, it)" by (cases x)
  from Cons.prems x have nin: "key \<notin> fst ` set xs" and d: "distinct (map fst xs)" by auto
  show ?case
  proof (cases "att a key < MaxRetry c")
    case True
    have "fst (retryScan c xs (a(key \<mapsto> att a key + 1)) (acc @ [it])) j =
       (if j \<in> fst ` set (x # xs) \<and> att a j < MaxRetry c then Some (att a j + 1) else a j)" for j
      using nin True x by (auto simp: Cons.IH [OF d] att_def)
    with True x show ?thesis by (simp add: fun_eq_iff del: fun_upd_apply)
  next
    case False
    have "fst (retryScan c xs a acc) j =
       (if j \<in> fst ` set (x # xs) \<and> att a j < MaxRetry c then Some (att a j + 1) else a j)" for j
      using nin False x by (auto simp: Cons.IH [OF d])
    with False x show ?thesis by (simp add: fun_eq_iff)
  qed
qed

lemma rangeOrder_keys: "rangeOrder ig order \<Longrightarrow> fst ` set (rangeItems ig order) = dom (items ig)"
  by (force simp: rangeOrder_set)

lemma retryVisit_eq:
  assumes ord: "rangeOrder ig order"
  shows "retryVisit c now order grp ig =
     (if dom (items ig) = {} \<or> lastSent ig = 0 \<or> sint (now - lastSent ig) < sint (RetryAfter c)
      then (ig, None)
      else
        (let r = map snd (filter (\<lambda>(k, it). attemptsOf ig k < MaxRetry c) (rangeItems ig order)) in
         if r = [] then (ig, None)
         else (ig\<lparr>attempts := (\<lambda>k. if k \<in> dom (items ig) \<and> attemptsOf ig k < MaxRetry c
                                  then Some (attemptsOf ig k + 1) else attempts ig k),
                  lastSent := now\<rparr>,
               Some \<lparr>startMsg = ''start retrying...'', taskGroup = grp, batch = r\<rparr>)))"
proof -
  let ?xs = "rangeItems ig order"
  let ?r = "map snd (filter (\<lambda>(k, it). attemptsOf ig k < MaxRetry c) ?xs)"
  from ord have d: "distinct (map fst ?xs)"
    by (simp add: rangeOrder_def distinct_rangeItems)
  have b: "snd (retryScan c ?xs (attempts ig) []) = ?r"
    by (simp add: retryScan_batch [OF d] attemptsOf_def)
  have a: "fst (retryScan c ?xs (attempts ig) []) =
      (\<lambda>k. if k \<in> dom (items ig) \<and> attemptsOf ig k < MaxRetry c
            then Some (attemptsOf ig k + 1) else attempts ig k)"
    unfolding attemptsOf_def by (simp add: retryScan_attempts [OF d] rangeOrder_keys [OF ord])
  have same: "(\<lambda>k. if k \<in> dom (items ig) \<and> attemptsOf ig k < MaxRetry c
            then Some (attemptsOf ig k + 1) else attempts ig k) = attempts ig" if "?r = []"
  proof -
    from that have "\<forall>(k, it) \<in> set ?xs. \<not> attemptsOf ig k < MaxRetry c"
      by (auto simp: filter_empty_conv)
    then have "\<not> attemptsOf ig k < MaxRetry c" if "k \<in> dom (items ig)" for k
      using that rangeOrder_set [OF ord] by auto
    then show ?thesis by (auto simp: fun_eq_iff)
  qed
  obtain a' r' where sc: "retryScan c ?xs (attempts ig) [] = (a', r')" by (cases "retryScan c ?xs (attempts ig) []")
  with a b have a': "a' = (\<lambda>k. if k \<in> dom (items ig) \<and> attemptsOf ig k < MaxRetry c
            then Some (attemptsOf ig k + 1) else attempts ig k)" and r': "r' = ?r" by simp_all
  show ?thesis
  proof (cases "?r = []")
    case True
    with same a' have "a' = attempts ig" by simp
    with True r' sc show ?thesis by (simp add: retryVisit_def Let_def)
  next
    case False
    with r' a' sc show ?thesis by (simp add: retryVisit_def Let_def)
  qed
qed

lemma retry_batch_set:
  assumes ord: "rangeOrder ig order"
  shows "set (map snd (filter (\<lambda>(k, it). attemptsOf ig k < MaxRetry c) (rangeItems ig order)))
         = {it. \<exists>k. items ig k = Some it \<and> attemptsOf ig k < MaxRetry c}"
  using rangeOrder_set [OF ord] by force

lemma retry_batch_length:
  assumes ord: "rangeOrder ig order"
  shows "length (map snd (filter (\<lambda>(k, it). attemptsOf ig k < MaxRetry c) (rangeItems ig order)))
         = card {k \<in> dom (items ig). attemptsOf ig k < MaxRetry c}"
proof -
  let ?xs = "rangeItems ig order"
  let ?P = "\<lambda>k. attemptsOf ig k < MaxRetry c"
  from ord have d: "distinct (map fst ?xs)"
    by (simp add: rangeOrder_def distinct_rangeItems)
  have "map fst (filter (\<lambda>(k, it). ?P k) ?xs) = filter ?P (map fst ?xs)"
    by (induction ?xs) (auto simp: filter_map comp_def case_prod_beta)
  then have "length (filter (\<lambda>(k, it). ?P k) ?xs) = length (filter ?P (map fst ?xs))"
    by (metis length_map)
  also have "\<dots> = card (set (filter ?P (map fst ?xs)))"
    using d by (intro distinct_card [symmetric] distinct_filter)
  also have "set (filter ?P (map fst ?xs)) = {k \<in> dom (items ig). ?P k}"
    using rangeOrder_keys [OF ord] by auto
  finally show ?thesis by simp
qed

lemma rangeOrder_single: "rangeOrder (groupOf [(k, it, n)] t) [k]"
  by (simp add: rangeOrder_def groupOf_def)

lemma rangeItems_single: "rangeItems (groupOf [(k, it, n)] t) [k] = [(k, it)]"
  by (simp add: rangeItems_def groupOf_def)

lemma attemptsOf_single: "attemptsOf (groupOf [(k, it, n)] t) k = n"
  by (simp add: attemptsOf_def att_def groupOf_def)

lemma retry_batch_empty_iff:
  assumes ord: "rangeOrder ig order"
  shows "map snd (filter (\<lambda>(k, it). attemptsOf ig k < MaxRetry c) (rangeItems ig order)) = []
         \<longleftrightarrow> (\<forall>k \<in> dom (items ig). MaxRetry c \<le> attemptsOf ig k)"
proof -
  let ?r = "map snd (filter (\<lambda>(k, it). attemptsOf ig k < MaxRetry c) (rangeItems ig order))"
  have "?r = [] \<longleftrightarrow> set ?r = {}" by (simp only: set_empty)
  also have "\<dots> \<longleftrightarrow> {it. \<exists>k. items ig k = Some it \<and> attemptsOf ig k < MaxRetry c} = {}"
    by (simp only: retry_batch_set [OF ord])
  also have "\<dots> \<longleftrightarrow> (\<forall>k \<in> dom (items ig). MaxRetry c \<le> attemptsOf ig k)"
    by (auto simp: not_less [symmetric])
  finally show ?thesis .
qed

lemma retry_bump_changes:
  assumes "k \<in> dom (items ig)" and "attemptsOf ig k < MaxRetry c"
  shows "ig\<lparr>attempts := (\<lambda>k. if k \<in> dom (items ig) \<and> attemptsOf ig k < MaxRetry c
                              then Some (attemptsOf ig k + 1) else attempts ig k),
            lastSent := now\<rparr> \<noteq> ig"
proof
  let ?a = "\<lambda>k. if k \<in> dom (items ig) \<and> attemptsOf ig k < MaxRetry c
                then Some (attemptsOf ig k + 1) else attempts ig k"
  assume "ig\<lparr>attempts := ?a, lastSent := now\<rparr> = ig"
  then have "attempts (ig\<lparr>attempts := ?a, lastSent := now\<rparr>) = attempts ig" by (simp only:)
  then have "?a = attempts ig" by simp
  then have "?a k = attempts ig k" by (rule fun_cong)
  with assms have "Some (attemptsOf ig k + 1) = attempts ig k" by simp
  then show False by (cases "attempts ig k") (simp_all add: attemptsOf_def att_def)
qed

section \<open>Reachable engines\<close>

lemma reachable_New: "reachable c (NewEngine c)"
  unfolding reachable_def by (rule exI [of _ "[]"]) simp

lemma path_snoc: "path e es \<Longrightarrow> step (last (e # es)) e' \<Longrightarrow> path e (es @ [e'])"
  by (induction es arbitrary: e) auto

lemma reachable_step: "reachable c e \<Longrightarrow> step e e' \<Longrightarrow> reachable c e'"
proof -
  assume "reachable c e" and s: "step e e'"
  then obtain es where p: "path (NewEngine c) es" and l: "last (NewEngine c # es) = e"
    by (auto simp: reachable_def)
  from p l s have "path (NewEngine c) (es @ [e'])" by (auto intro: path_snoc)
  then show ?thesis unfolding reachable_def by (intro exI [of _ "es @ [e']"]) simp
qed

lemma unsent_set:
  "rangeOrder ig order \<Longrightarrow>
   set (unsentOf ig order) = {it. \<exists>j. items ig j = Some it \<and> attemptsOf ig j = 0}"
  using rangeOrder_set [of ig order] by (force simp: unsentOf_def)


lemma reachable_exEngine: "reachable c (exEngine c)"
  unfolding exEngine_def by (intro reachable_step [OF _ stepAdd] reachable_New)

lemma cache_exEngine: "cache (exEngine c) ''JP101'' = Some exGroup"
  by (simp add: exEngine_def exGroup_def Add_def NewEngine_def newItemGroup_def exItem_def)

lemma rangeOrder_exGroup: "rangeOrder exGroup [''ORD_000'', ''ORD_001'', ''ORD_002'']"
  by (auto simp: rangeOrder_def exGroup_def)

lemma unsentOf_exGroup:
  "unsentOf exGroup [''ORD_000'', ''ORD_001'', ''ORD_002'']
     = [exItem ''ORD_000'' ''0'', exItem ''ORD_001'' ''1'', exItem ''ORD_002'' ''2'']"
  by (simp add: unsentOf_def rangeItems_def exGroup_def attemptsOf_def att_def)

section \<open>Attempt counts along a run\<close>

lemma att_bumpAll_mono: "att a k \<le> att (bumpAll b a) k"
proof (induction b arbitrary: a)
  case Nil
  then show ?case by simp
next
  case (Cons x b)
  have "att a k \<le> att (a(Key x \<mapsto> att a (Key x) + 1)) k" by (simp add: att_def)
  also have "\<dots> \<le> att (bumpAll b (a(Key x \<mapsto> att a (Key x) + 1))) k" by (rule Cons.IH)
  finally show ?case by simp
qed

lemma retryScan_mono: "att a k \<le> att (fst (retryScan c xs a acc)) k"
proof (induction xs arbitrary: a acc)
  case Nil
  then show ?case by simp
next
  case (Cons x xs)
  obtain key it where x: "x = (key, it)" by (cases x)
  show ?case
  proof (cases "att a key < MaxRetry c")
    case True
    have "att a k \<le> att (a(key \<mapsto> att a key + 1)) k" by (simp add: att_def)
    also have "\<dots> \<le> att (fst (retryScan c xs (a(key \<mapsto> att a key + 1)) (acc @ [it]))) k"
      by (rule Cons.IH)
    finally show ?thesis using True x by simp
  next
    case False
    with Cons.IH [of a acc] x show ?thesis by simp
  qed
qed

lemma dispatchVisit_mono:
  "dispatchVisit c now now' order k ig = Inr (ig', t) \<Longrightarrow>
   items ig' = items ig \<and> attemptsOf ig j \<le> attemptsOf ig' j"
  by (auto simp: dispatchVisit_def Let_def attemptsOf_def att_bumpAll_mono split: if_splits)

lemma retryVisit_mono:
  "retryVisit c now order grp ig = (ig', t) \<Longrightarrow>
   items ig' = items ig \<and> attemptsOf ig j \<le> attemptsOf ig' j"
proof -
  assume v: "retryVisit c now order grp ig = (ig', t)"
  from retryVisit_cases [OF v] show ?thesis
    using retryScan_mono [of "attempts ig" j c "rangeItems ig order" "[]"]
    by (auto simp: attemptsOf_def)
qed

lemma step_mono:
  assumes "step e e'" and "present g k e'"
  shows "attemptsAt g k e \<le> attemptsAt g k e'"
  using assms
proof (induction rule: step.induct)
  case (stepAdd e item)
  then show ?case
    by (auto simp: Add_def Let_def attemptsAt_def attemptsOf_def att_def newItemGroup_def
        split: option.splits)
next
  case (stepAck e grp keys)
  then show ?case
    by (auto simp: Ack_def attemptsAt_def present_def attemptsOf_def att_def
        items_ackKeys attempts_ackKeys split: option.splits if_splits)
next
  case (stepDispatch e k' ig order now now' ig' t)
  from dispatchVisit_mono [OF stepDispatch(3), of k] stepDispatch(1) show ?case
    by (auto simp: attemptsAt_def)
next
  case (stepRetry e k' ig order now ig' t)
  from retryVisit_mono [OF stepRetry(3), of k] stepRetry(1) show ?case
    by (auto simp: attemptsAt_def)
next
  case (stepStop e e')
  then show ?case by (auto simp: Stop_def attemptsAt_def split: chan.splits)
qed

lemma path_mono:
  "path e es \<Longrightarrow> \<forall>s \<in> set es. present g k s
   \<Longrightarrow> attemptsAt g k e \<le> attemptsAt g k (last (e # es))"
proof (induction es arbitrary: e)
  case Nil
  then show ?case by simp
next
  case (Cons e' es)
  then have "attemptsAt g k e \<le> attemptsAt g k e'" by (auto intro: step_mono)
  also have "\<dots> \<le> attemptsAt g k (last (e' # es))" using Cons by auto
  finally show ?case by simp
qed

lemma engineInv_bound:
  "engineInv c e \<Longrightarrow> 0 \<le> attemptsAt g k e \<and> attemptsAt g k e \<le> max 1 (MaxRetry c)"
  by (auto simp: engineInv_def groupInv_def attemptsAt_def split: option.splits)

lemma retry_excludes_exhausted:
  assumes inv: "groupInv c ig" and ord: "rangeOrder ig order"
    and it: "items ig k = Some it" and ex: "MaxRetry c \<le> attemptsOf ig k"
    and v: "retryVisit c now order grp ig = (ig', t)"
  shows "attemptsOf ig' k = attemptsOf ig k \<and> (\<forall>tk. t = Some tk \<longrightarrow> it \<notin> set (batch tk))"
proof -
  let ?r = "map snd (filter (\<lambda>(k, it). attemptsOf ig k < MaxRetry c) (rangeItems ig order))"
  from inv have keys: "\<forall>k it. items ig k = Some it \<longrightarrow> Key it = k" by (simp add: groupInv_def)
  have "it \<notin> set ?r"
  proof
    assume "it \<in> set ?r"
    with retry_batch_set [OF ord, of c] obtain j where
      "items ig j = Some it" "attemptsOf ig j < MaxRetry c" by auto
    with keys it have "j = k" by metis
    with \<open>attemptsOf ig j < MaxRetry c\<close> ex show False by simp
  qed
  with v retryVisit_eq [OF ord, of c now grp] ex show ?thesis
    by (auto simp: Let_def attemptsOf_def att_def split: if_splits)
qed


lemma step_dispatchedOnce:
  assumes "FlushAfter c = 1000000000" and "BatchSize c = 2"
  shows "step (Add (exItem ''ORD_000'' ''0'') (NewEngine c)) (dispatchedOnce c 1700000000000000001)"
proof -
  let ?e = "Add (exItem ''ORD_000'' ''0'') (NewEngine c)"
  let ?ig = "\<lparr>items = [''ORD_000'' \<mapsto> exItem ''ORD_000'' ''0''], attempts = Map.empty, lastSent = 0\<rparr>"
  let ?ig' = "groupOf [(''ORD_000'', exItem ''ORD_000'' ''0'', 1)] 1700000000000000001"
  have c: "cache ?e = [''JP101'' \<mapsto> ?ig]" and cf: "cfg ?e = c"
    by (simp_all add: Add_def NewEngine_def newItemGroup_def exItem_def)
  then have g: "cache ?e ''JP101'' = Some ?ig" by simp
  have o: "rangeOrder ?ig [''ORD_000'']" by (simp add: rangeOrder_def)
  have u: "unsentOf ?ig [''ORD_000''] = [exItem ''ORD_000'' ''0'']"
    by (simp add: unsentOf_def rangeItems_def attemptsOf_def att_def)
  have v: "dispatchVisit (cfg ?e) 1700000000000000000 1700000000000000001 [''ORD_000''] ''JP101'' ?ig
      = Inr (?ig', Some \<lparr>startMsg = ''start dispatch...'', taskGroup = ''JP101'',
                        batch = [exItem ''ORD_000'' ''0'']\<rparr>)"
    unfolding cf using assms
    by (simp add: dispatchVisit_def u shouldFlush_def Let_def)
       (simp add: groupOf_def exItem_def att_def)
  have "step ?e (?e\<lparr>cache := (cache ?e)(''JP101'' \<mapsto> ?ig')\<rparr>)"
    using g o v by (rule stepDispatch)
  also have "?e\<lparr>cache := (cache ?e)(''JP101'' \<mapsto> ?ig')\<rparr> = dispatchedOnce c 1700000000000000001"
    by (simp add: c dispatchedOnce_def)
  finally show ?thesis .
qed

lemma reachable_dispatchedOnce:
  assumes "FlushAfter c = 1000000000" and "BatchSize c = 2"
  shows "reachable c (dispatchedOnce c 1700000000000000001)"
  by (intro reachable_step [OF _ step_dispatchedOnce [OF assms]] reachable_step [OF _ stepAdd]
        reachable_New)

lemma attemptsAt_dispatchedOnce:
  "attemptsAt ''JP101'' ''ORD_000'' (dispatchedOnce c t) = 1"
  "present ''JP101'' ''ORD_000'' (dispatchedOnce c t)"
  by (simp_all add: attemptsAt_def present_def dispatchedOnce_def attemptsOf_def att_def groupOf_def)

section \<open>A tick is a run of visits\<close>

lemma validVisits_update:
  assumes vv: "validVisits e vs" and c: "cache e k = Some ig" and i: "items ig' = items ig"
  shows "validVisits (e\<lparr>cache := (cache e)(k \<mapsto> ig')\<rparr>) vs"
  unfolding validVisits_def
proof (intro ballI allI impI)
  fix v ig0
  assume v: "v \<in> set vs"
    and g: "cache (e\<lparr>cache := (cache e)(k \<mapsto> ig')\<rparr>) (fst v) = Some ig0"
  show "rangeOrder ig0 (fst (snd v))"
  proof (cases "fst v = k")
    case True
    with g have "ig0 = ig'" by simp
    moreover from vv v have "\<forall>x. cache e (fst v) = Some x \<longrightarrow> rangeOrder x (fst (snd v))"
      unfolding validVisits_def by (rule bspec)
    with c True have "rangeOrder ig (fst (snd v))" by simp
    ultimately show ?thesis using i by (simp add: rangeOrder_def)
  next
    case False
    with g have "cache e (fst v) = Some ig0" by simp
    moreover from vv v have "\<forall>x. cache e (fst v) = Some x \<longrightarrow> rangeOrder x (fst (snd v))"
      unfolding validVisits_def by (rule bspec)
    ultimately show ?thesis by simp
  qed
qed

lemma validVisits_Cons:
  "validVisits e ((k, order, now') # vs) \<longleftrightarrow>
     (\<forall>ig. cache e k = Some ig \<longrightarrow> rangeOrder ig order) \<and> validVisits e vs"
  by (simp add: validVisits_def)

lemma dispatchTick_path:
  "validVisits e vs \<Longrightarrow> dispatchTick now vs e = Inr (e', ts)
   \<Longrightarrow> \<exists>es. path e es \<and> last (e # es) = e'"
proof (induction vs arbitrary: e ts)
  case Nil
  then have "path e [] \<and> last (e # []) = e'" by simp
  then show ?case by blast
next
  case (Cons v vs)
  obtain k order now' where v: "v = (k, order, now')" by (cases v)
  from Cons.prems(1) v have ok: "\<forall>ig. cache e k = Some ig \<longrightarrow> rangeOrder ig order"
    and rest: "validVisits e vs" by (simp_all add: validVisits_Cons)
  show ?case
  proof (cases "cache e k")
    case None
    with Cons.prems(2) v have "dispatchTick now vs e = Inr (e', ts)" by simp
    from Cons.IH [OF rest this] show ?thesis .
  next
    case (Some ig)
    from Cons.prems(2) v Some obtain x where
      d0: "dispatchVisit (cfg e) now now' order k ig = Inr x"
      by (cases "dispatchVisit (cfg e) now now' order k ig") simp_all
    obtain ig' t where x: "x = (ig', t)" by (cases x)
    with d0 have d: "dispatchVisit (cfg e) now now' order k ig = Inr (ig', t)" by simp
    from Cons.prems(2) v Some d obtain y where
      r0: "dispatchTick now vs (e\<lparr>cache := (cache e)(k \<mapsto> ig')\<rparr>) = Inr y"
      by (cases "dispatchTick now vs (e\<lparr>cache := (cache e)(k \<mapsto> ig')\<rparr>)") simp_all
    obtain e1 ts' where y: "y = (e1, ts')" by (cases y)
    from Cons.prems(2) v Some d r0 y have "e1 = e'" by simp
    with r0 y have r: "dispatchTick now vs (e\<lparr>cache := (cache e)(k \<mapsto> ig')\<rparr>) = Inr (e', ts')"
      by simp
    let ?e1 = "e\<lparr>cache := (cache e)(k \<mapsto> ig')\<rparr>"
    from ok Some have "rangeOrder ig order" by simp
    with Some have s: "step e ?e1" using d by (rule stepDispatch)
    from dispatchVisit_mono [OF d] have "items ig' = items ig" by simp
    from validVisits_update [OF rest Some this] have "validVisits ?e1 vs" .
    from Cons.IH [OF this r] obtain es where "path ?e1 es" "last (?e1 # es) = e'" by blast
    with s have "path e (?e1 # es) \<and> last (e # ?e1 # es) = e'" by simp
    then show ?thesis by blast
  qed
qed

lemma retryTick_path:
  "validVisits e vs \<Longrightarrow> retryTick now vs e = (e', ts)
   \<Longrightarrow> \<exists>es. path e es \<and> last (e # es) = e'"
proof (induction vs arbitrary: e ts)
  case Nil
  then have "path e [] \<and> last (e # []) = e'" by simp
  then show ?case by blast
next
  case (Cons v vs)
  obtain k order now' where v: "v = (k, order, now')" by (cases v)
  from Cons.prems(1) v have ok: "\<forall>ig. cache e k = Some ig \<longrightarrow> rangeOrder ig order"
    and rest: "validVisits e vs" by (simp_all add: validVisits_Cons)
  show ?case
  proof (cases "cache e k")
    case None
    with Cons.prems(2) v have "retryTick now vs e = (e', ts)" by simp
    from Cons.IH [OF rest this] show ?thesis .
  next
    case (Some ig)
    obtain ig' t where d: "retryVisit (cfg e) now order k ig = (ig', t)"
      by (cases "retryVisit (cfg e) now order k ig")
    obtain e1 ts' where r0: "retryTick now vs (e\<lparr>cache := (cache e)(k \<mapsto> ig')\<rparr>) = (e1, ts')"
      by (cases "retryTick now vs (e\<lparr>cache := (cache e)(k \<mapsto> ig')\<rparr>)")
    from Cons.prems(2) v Some d r0 have "e1 = e'" by simp
    with r0 have r: "retryTick now vs (e\<lparr>cache := (cache e)(k \<mapsto> ig')\<rparr>) = (e', ts')"
      by simp
    let ?e1 = "e\<lparr>cache := (cache e)(k \<mapsto> ig')\<rparr>"
    from ok Some have "rangeOrder ig order" by simp
    with Some have s: "step e ?e1" using d by (rule stepRetry)
    from retryVisit_mono [OF d] have "items ig' = items ig" by simp
    from validVisits_update [OF rest Some this] have "validVisits ?e1 vs" .
    from Cons.IH [OF this r] obtain es where "path ?e1 es" "last (?e1 # es) = e'" by blast
    with s have "path e (?e1 # es) \<and> last (e # ?e1 # es) = e'" by simp
    then show ?thesis by blast
  qed
qed

lemma path_append: "path e es \<Longrightarrow> path (last (e # es)) es' \<Longrightarrow> path e (es @ es')"
  by (induction es arbitrary: e) auto

lemma reachable_path: "reachable c e \<Longrightarrow> path e es \<Longrightarrow> reachable c (last (e # es))"
proof -
  assume "reachable c e" and p: "path e es"
  then obtain es0 where p0: "path (NewEngine c) es0" and l: "last (NewEngine c # es0) = e"
    by (auto simp: reachable_def)
  from p0 p l have "path (NewEngine c) (es0 @ es)" by (auto intro: path_append)
  moreover from l have "last (NewEngine c # es0 @ es) = last (e # es)"
    by (cases es) auto
  ultimately show ?thesis unfolding reachable_def by blast
qed

lemma dispatchTick_reachable:
  assumes "reachable c e" and "validVisits e vs" and "dispatchTick now vs e = Inr (e', ts)"
  shows "reachable c e'"
proof -
  from dispatchTick_path [OF assms(2,3)] obtain es where "path e es" "last (e # es) = e'"
    by blast
  with reachable_path [OF assms(1), of es] show ?thesis by simp
qed

lemma retryTick_reachable:
  assumes "reachable c e" and "validVisits e vs" and "retryTick now vs e = (e', ts)"
  shows "reachable c e'"
proof -
  from retryTick_path [OF assms(2,3)] obtain es where "path e es" "last (e # es) = e'"
    by blast
  with reachable_path [OF assms(1), of es] show ?thesis by simp
qed

section \<open>The claims\<close>

text \<open>
  C1, as the claim states it, fails for a negative \<open>BatchSize\<close>, which the engine does
  not reject: every unsent set has at least that size, and for a non-empty one the
  dispatch loop slices \<open>unsent[:BatchSize]\<close> and panics.
\<close>

theorem negative_BatchSize_counterexample:
  "reachable cfgNegBatch (exEngine cfgNegBatch) \<and>
   cache (exEngine cfgNegBatch) ''JP101'' = Some exGroup \<and>
   rangeOrder exGroup [''ORD_000'', ''ORD_001'', ''ORD_002''] \<and>
   BatchSize cfgNegBatch \<le> int (length (unsentOf exGroup [''ORD_000'', ''ORD_001'', ''ORD_002''])) \<and>
   dispatchVisit cfgNegBatch 1700000000000000000 1700000000000000001
       [''ORD_000'', ''ORD_001'', ''ORD_002''] ''JP101'' exGroup
     = Inl SliceBoundsOutOfRange"
proof -
  have "dispatchVisit cfgNegBatch 1700000000000000000 1700000000000000001
       [''ORD_000'', ''ORD_001'', ''ORD_002''] ''JP101'' exGroup = Inl SliceBoundsOutOfRange"
    by (simp add: dispatchVisit_def unsentOf_exGroup shouldFlush_def cfgNegBatch_def cfgExample_def)
  moreover have "BatchSize cfgNegBatch
      \<le> int (length (unsentOf exGroup [''ORD_000'', ''ORD_001'', ''ORD_002'']))"
    by (simp add: unsentOf_exGroup cfgNegBatch_def cfgExample_def)
  ultimately show ?thesis
    using reachable_exEngine cache_exEngine rangeOrder_exGroup by blast
qed

text \<open>
  C1, amended. When \<open>BatchSize\<close> is not negative, for every group of a reachable engine
  whose unsent items (attempt count 0) number at least \<open>BatchSize\<close> at a dispatch tick,
  the tick dispatches exactly the first \<open>BatchSize\<close> items of the unsent ones, all with
  attempt count 0 and with distinct keys, sets the attempt counts of exactly those items
  to 1, and leaves every other attempt count, the remaining unsent items at 0 among them,
  and the items as they were.
\<close>

theorem dispatch_full_batch:
  assumes r: "reachable c e" and g: "cache e k = Some ig" and ord: "rangeOrder ig order"
    and n0: "0 \<le> BatchSize c" and n: "BatchSize c \<le> int (length (unsentOf ig order))"
  shows "\<exists>ig' t. dispatchVisit c now now' order k ig = Inr (ig', t) \<and>
     (let b = take (nat (BatchSize c)) (unsentOf ig order) in
        (if unsentOf ig order = [] then t = None
         else t = Some \<lparr>startMsg = ''start dispatch...'', taskGroup = k, batch = b\<rparr>) \<and>
        int (length b) = BatchSize c \<and> distinct (map Key b) \<and>
        set (unsentOf ig order) = {it. \<exists>j. items ig j = Some it \<and> attemptsOf ig j = 0} \<and>
        (\<forall>it \<in> set b. items ig (Key it) = Some it \<and> attemptsOf ig (Key it) = 0 \<and>
                       attemptsOf ig' (Key it) = 1) \<and>
        (\<forall>it \<in> set (unsentOf ig order) - set b. attemptsOf ig' (Key it) = 0) \<and>
        (\<forall>j. j \<notin> Key ` set b \<longrightarrow> attemptsOf ig' j = attemptsOf ig j) \<and>
        items ig' = items ig)"
proof -
  let ?u = "unsentOf ig order"
  let ?b = "take (nat (BatchSize c)) ?u"
  from reachable_engineInv [OF r] g have inv: "groupInv c ig" by (auto simp: engineInv_def)
  then have keys: "\<forall>k it. items ig k = Some it \<longrightarrow> Key it = k" by (simp add: groupInv_def)
  from ord have dord: "distinct order" by (simp add: rangeOrder_def)
  have du: "distinct (map Key ?u)" by (rule unsent_distinct_keys [OF keys dord])
  then have d: "distinct (map Key ?b)" by (simp add: take_map [symmetric] distinct_take)
  have len: "int (length ?b) = BatchSize c" using n0 n by simp
  have us: "set ?u = {it. \<exists>j. items ig j = Some it \<and> attemptsOf ig j = 0}"
    by (rule unsent_set [OF ord])
  have inu: "items ig (Key it) = Some it \<and> attemptsOf ig (Key it) = 0" if "it \<in> set ?u" for it
    using unsent_props [OF that] keys by auto
  define ig' where "ig' = (if ?u = [] then ig
                           else ig\<lparr>attempts := bumpAll ?b (attempts ig), lastSent := now'\<rparr>)"
  define t where "t = (if ?u = [] then None
     else Some \<lparr>startMsg = ''start dispatch...'', taskGroup = k, batch = ?b\<rparr>)"
  have m: "min (BatchSize c) (int (length ?u)) = BatchSize c" using n by simp
  have v: "dispatchVisit c now now' order k ig = Inr (ig', t)"
    using n n0 by (simp add: dispatchVisit_def Let_def shouldFlush_def m ig'_def t_def)
  have att': "attemptsOf ig' j = (if j \<in> Key ` set ?b then attemptsOf ig j + 1 else attemptsOf ig j)" for j
    by (cases "?u = []") (simp_all add: ig'_def attemptsOf_def att_bumpAll [OF d])
  have b1: "items ig (Key it) = Some it \<and> attemptsOf ig (Key it) = 0 \<and> attemptsOf ig' (Key it) = 1"
    if "it \<in> set ?b" for it
  proof -
    from that have "it \<in> set ?u" by (rule in_set_takeD)
    from inu [OF this] that show ?thesis by (simp add: att')
  qed
  have rest: "attemptsOf ig' (Key it) = 0" if "it \<in> set ?u - set ?b" for it
  proof -
    from that have iu: "it \<in> set ?u" and nb: "it \<notin> set ?b" by auto
    have "Key it \<notin> Key ` set ?b"
    proof
      assume "Key it \<in> Key ` set ?b"
      then obtain x where x: "x \<in> set ?b" "Key x = Key it" by auto
      then have "x \<in> set ?u" by (auto dest: in_set_takeD)
      with iu x du have "x = it" by (auto simp: distinct_map dest: inj_onD)
      with x nb show False by simp
    qed
    with inu [OF iu] show ?thesis by (simp add: att')
  qed
  have it': "items ig' = items ig" by (simp add: ig'_def)
  have tt: "if ?u = [] then t = None
         else t = Some \<lparr>startMsg = ''start dispatch...'', taskGroup = k, batch = ?b\<rparr>"
    by (simp add: t_def)
  from v tt len d us b1 rest att' it' show ?thesis
    unfolding Let_def by (intro exI [of _ ig'] exI [of _ t] conjI ballI allI impI) simp_all
qed

theorem dispatch_full_batch_witness:
  "reachable cfgExample (exEngine cfgExample) \<and>
   cache (exEngine cfgExample) ''JP101'' = Some exGroup \<and>
   rangeOrder exGroup [''ORD_000'', ''ORD_001'', ''ORD_002''] \<and>
   0 \<le> BatchSize cfgExample \<and>
   BatchSize cfgExample \<le> int (length (unsentOf exGroup [''ORD_000'', ''ORD_001'', ''ORD_002''])) \<and>
   (\<exists>ig'. dispatchVisit cfgExample 1700000000000000000 1700000000000000001
              [''ORD_000'', ''ORD_001'', ''ORD_002''] ''JP101'' exGroup
            = Inr (ig', Some \<lparr>startMsg = ''start dispatch...'', taskGroup = ''JP101'',
                              batch = [exItem ''ORD_000'' ''0'', exItem ''ORD_001'' ''1'']\<rparr>) \<and>
          attemptsOf ig' ''ORD_000'' = 1 \<and> attemptsOf ig' ''ORD_001'' = 1 \<and>
          attemptsOf ig' ''ORD_002'' = 0)"
proof -
  let ?order = "[''ORD_000'', ''ORD_001'', ''ORD_002'']"
  let ?b = "[exItem ''ORD_000'' ''0'', exItem ''ORD_001'' ''1'']"
  have h1: "reachable cfgExample (exEngine cfgExample)" by (rule reachable_exEngine)
  have h2: "cache (exEngine cfgExample) ''JP101'' = Some exGroup" by (rule cache_exEngine)
  have h3: "rangeOrder exGroup ?order" by (rule rangeOrder_exGroup)
  have h4: "0 \<le> BatchSize cfgExample" by (simp add: cfgExample_def)
  have h5: "BatchSize cfgExample \<le> int (length (unsentOf exGroup ?order))"
    by (simp add: unsentOf_exGroup cfgExample_def)
  have tk: "take (nat (BatchSize cfgExample)) (unsentOf exGroup ?order) = ?b"
    by (simp add: unsentOf_exGroup cfgExample_def)
  have ks: "Key (exItem ''ORD_000'' ''0'') = ''ORD_000''" "Key (exItem ''ORD_001'' ''1'') = ''ORD_001''"
    "Key (exItem ''ORD_002'' ''2'') = ''ORD_002''"
    by (simp_all add: exItem_def)
  from dispatch_full_batch [OF h1 h2 h3 h4 h5, of 1700000000000000000 1700000000000000001]
  obtain ig' t where
    v: "dispatchVisit cfgExample 1700000000000000000 1700000000000000001 ?order ''JP101'' exGroup
          = Inr (ig', t)"
    and t: "t = Some \<lparr>startMsg = ''start dispatch...'', taskGroup = ''JP101'', batch = ?b\<rparr>"
    and b: "\<forall>it \<in> set ?b. attemptsOf ig' (Key it) = 1"
    and u: "\<forall>it \<in> set (unsentOf exGroup ?order) - set ?b. attemptsOf ig' (Key it) = 0"
    unfolding Let_def tk by (auto simp: unsentOf_exGroup)
  have "exItem ''ORD_002'' ''2'' \<in> set (unsentOf exGroup ?order) - set ?b"
    by (simp add: unsentOf_exGroup exItem_def)
  with u have "attemptsOf ig' (Key (exItem ''ORD_002'' ''2'')) = 0" by blast
  with b v t ks have "dispatchVisit cfgExample 1700000000000000000 1700000000000000001 ?order ''JP101'' exGroup
            = Inr (ig', Some \<lparr>startMsg = ''start dispatch...'', taskGroup = ''JP101'', batch = ?b\<rparr>) \<and>
          attemptsOf ig' ''ORD_000'' = 1 \<and> attemptsOf ig' ''ORD_001'' = 1 \<and>
          attemptsOf ig' ''ORD_002'' = 0"
    by simp
  with h1 h2 h3 h4 h5 show ?thesis by blast
qed

text \<open>
  C2, as the claim states it, fails where \<open>now - lastSent\<close> equals \<open>RetryAfter\<close>: the
  elapsed time has not exceeded \<open>RetryAfter\<close>, and the retry loop does not skip the record.
  Here the record was last dispatched at 5 s, \<open>RetryAfter\<close> is 10 s and the tick reads
  15 s: the attempt count goes from 1 to 2, \<open>lastSent\<close> becomes 15 s and the item is
  dispatched.
\<close>

theorem retry_at_RetryAfter_counterexample:
  "sint (15000000000 - lastSent (groupOf [(''ORD_000'', exItem ''ORD_000'' ''0'', 1)] 5000000000))
     = sint (RetryAfter cfgExample) \<and>
   retryVisit cfgExample 15000000000 [''ORD_000''] ''JP101''
       (groupOf [(''ORD_000'', exItem ''ORD_000'' ''0'', 1)] 5000000000)
     = (groupOf [(''ORD_000'', exItem ''ORD_000'' ''0'', 2)] 15000000000,
        Some \<lparr>startMsg = ''start retrying...'', taskGroup = ''JP101'',
              batch = [exItem ''ORD_000'' ''0'']\<rparr>)"
proof -
  let ?ig = "groupOf [(''ORD_000'', exItem ''ORD_000'' ''0'', 1)] 5000000000"
  have l: "lastSent ?ig = 5000000000" "dom (items ?ig) = {''ORD_000''}"
    "attempts ?ig = [''ORD_000'' \<mapsto> 1]"
    by (simp_all add: groupOf_def)
  have m: "MaxRetry cfgExample = 3" "RetryAfter cfgExample = 10000000000"
    by (simp_all add: cfgExample_def)
  have "retryVisit cfgExample 15000000000 [''ORD_000''] ''JP101'' ?ig
     = (groupOf [(''ORD_000'', exItem ''ORD_000'' ''0'', 2)] 15000000000,
        Some \<lparr>startMsg = ''start retrying...'', taskGroup = ''JP101'',
              batch = [exItem ''ORD_000'' ''0'']\<rparr>)"
    by (simp add: retryVisit_def rangeItems_single l m att_def)
       (simp add: groupOf_def)
  with l m show ?thesis by simp
qed

text \<open>
  C2, amended. At every retry tick and for every group record, the record is left as it
  is, and nothing is submitted, exactly when it has no items, or \<open>lastSent\<close> is 0, or
  \<open>now - lastSent\<close> is less than \<open>RetryAfter\<close>, or no item has an attempt count below
  \<open>MaxRetry\<close>. Otherwise every item whose attempt count is below \<open>MaxRetry\<close> has the
  count incremented by 1, \<open>lastSent\<close> becomes \<open>now\<close>, and all of these items are
  submitted as one batch, whose length is the number of such keys whatever \<open>BatchSize\<close>
  is.
\<close>

theorem retryVisit_policy:
  assumes "rangeOrder ig order"
  shows "(let r = map snd (filter (\<lambda>(k, it). attemptsOf ig k < MaxRetry c) (rangeItems ig order));
              skipped = (dom (items ig) = {} \<or> lastSent ig = 0
                         \<or> sint (now - lastSent ig) < sint (RetryAfter c)
                         \<or> (\<forall>k \<in> dom (items ig). MaxRetry c \<le> attemptsOf ig k)) in
          (fst (retryVisit c now order grp ig) = ig \<longleftrightarrow> skipped)
          \<and> (snd (retryVisit c now order grp ig) = None \<longleftrightarrow> skipped)
          \<and> retryVisit c now order grp ig =
            (if skipped then (ig, None)
             else (ig\<lparr>attempts := (\<lambda>k. if k \<in> dom (items ig) \<and> attemptsOf ig k < MaxRetry c
                                      then Some (attemptsOf ig k + 1) else attempts ig k),
                      lastSent := now\<rparr>,
                   Some \<lparr>startMsg = ''start retrying...'', taskGroup = grp, batch = r\<rparr>))
          \<and> set r = {it. \<exists>k. items ig k = Some it \<and> attemptsOf ig k < MaxRetry c}
          \<and> length r = card {k \<in> dom (items ig). attemptsOf ig k < MaxRetry c})"
proof -
  let ?r = "map snd (filter (\<lambda>(k, it). attemptsOf ig k < MaxRetry c) (rangeItems ig order))"
  let ?none = "\<forall>k \<in> dom (items ig). MaxRetry c \<le> attemptsOf ig k"
  let ?guards = "dom (items ig) = {} \<or> lastSent ig = 0
                   \<or> sint (now - lastSent ig) < sint (RetryAfter c)"
  let ?skipped = "dom (items ig) = {} \<or> lastSent ig = 0
                   \<or> sint (now - lastSent ig) < sint (RetryAfter c) \<or> ?none"
  let ?ig' = "ig\<lparr>attempts := (\<lambda>k. if k \<in> dom (items ig) \<and> attemptsOf ig k < MaxRetry c
                                  then Some (attemptsOf ig k + 1) else attempts ig k),
                  lastSent := now\<rparr>"
  let ?t = "\<lparr>startMsg = ''start retrying...'', taskGroup = grp, batch = ?r\<rparr>"
  have e: "?r = [] \<longleftrightarrow> ?none" by (rule retry_batch_empty_iff [OF assms])
  have v: "retryVisit c now order grp ig = (if ?skipped then (ig, None) else (?ig', Some ?t))"
  proof (cases ?guards)
    case True
    then have "?skipped" by blast
    moreover from True have "retryVisit c now order grp ig = (ig, None)"
      using retryVisit_eq [OF assms, of c now grp] by (simp only: if_True)
    ultimately show ?thesis by (simp only: if_True)
  next
    case False
    then have r: "retryVisit c now order grp ig = (if ?r = [] then (ig, None) else (?ig', Some ?t))"
      using retryVisit_eq [OF assms, of c now grp] by (simp only: if_False Let_def)
    from False have "?skipped \<longleftrightarrow> ?none" by blast
    with e have "?skipped \<longleftrightarrow> ?r = []" by (simp only:)
    with r show ?thesis by (simp only:)
  qed
  have f: "fst (retryVisit c now order grp ig) = ig \<longleftrightarrow> ?skipped"
  proof (cases ?skipped)
    case True
    with v show ?thesis by simp
  next
    case False
    then obtain k where "k \<in> dom (items ig)" "attemptsOf ig k < MaxRetry c"
      by (auto simp: not_le)
    then have "?ig' \<noteq> ig" by (rule retry_bump_changes)
    with v False show ?thesis by simp
  qed
  have s: "snd (retryVisit c now order grp ig) = None \<longleftrightarrow> ?skipped"
    using v by (cases ?skipped) simp_all
  have st: "set ?r = {it. \<exists>k. items ig k = Some it \<and> attemptsOf ig k < MaxRetry c}"
    by (rule retry_batch_set [OF assms])
  have ln: "length ?r = card {k \<in> dom (items ig). attemptsOf ig k < MaxRetry c}"
    by (rule retry_batch_length [OF assms])
  from f s v st ln show ?thesis unfolding Let_def by (intro conjI)
qed

theorem retryVisit_policy_witness:
  "rangeOrder (groupOf [(''ORD_000'', exItem ''ORD_000'' ''0'', 1)] 5000000000) [''ORD_000''] \<and>
   rangeOrder (groupOf [(''ORD_000'', exItem ''ORD_000'' ''0'', 3)] 5000000000) [''ORD_000''] \<and>
   retryVisit cfgExample 20000000000 [''ORD_000''] ''JP101''
       (groupOf [(''ORD_000'', exItem ''ORD_000'' ''0'', 1)] 5000000000)
     = (groupOf [(''ORD_000'', exItem ''ORD_000'' ''0'', 2)] 20000000000,
        Some \<lparr>startMsg = ''start retrying...'', taskGroup = ''JP101'',
              batch = [exItem ''ORD_000'' ''0'']\<rparr>) \<and>
   retryVisit cfgExample 6000000000 [''ORD_000''] ''JP101''
       (groupOf [(''ORD_000'', exItem ''ORD_000'' ''0'', 1)] 5000000000)
     = (groupOf [(''ORD_000'', exItem ''ORD_000'' ''0'', 1)] 5000000000, None) \<and>
   retryVisit cfgExample 20000000000 [''ORD_000''] ''JP101''
       (groupOf [(''ORD_000'', exItem ''ORD_000'' ''0'', 3)] 5000000000)
     = (groupOf [(''ORD_000'', exItem ''ORD_000'' ''0'', 3)] 5000000000, None)"
proof -
  let ?ig = "groupOf [(''ORD_000'', exItem ''ORD_000'' ''0'', 1)] 5000000000"
  let ?ig3 = "groupOf [(''ORD_000'', exItem ''ORD_000'' ''0'', 3)] 5000000000"
  have h: "rangeOrder ?ig [''ORD_000'']" by (rule rangeOrder_single)
  have h3: "rangeOrder ?ig3 [''ORD_000'']" by (rule rangeOrder_single)
  have m: "MaxRetry cfgExample = 3" "RetryAfter cfgExample = 10000000000"
    by (simp_all add: cfgExample_def)
  have l: "lastSent ?ig = 5000000000" "dom (items ?ig) = {''ORD_000''}"
    "attemptsOf ?ig ''ORD_000'' = 1"
    by (simp_all add: groupOf_def attemptsOf_def att_def)
  have l3: "lastSent ?ig3 = 5000000000" "dom (items ?ig3) = {''ORD_000''}"
    "attemptsOf ?ig3 ''ORD_000'' = 3"
    by (simp_all add: groupOf_def attemptsOf_def att_def)
  have u: "?ig\<lparr>attempts := (\<lambda>k. if k \<in> dom (items ?ig) \<and> attemptsOf ?ig k < MaxRetry cfgExample
                                  then Some (attemptsOf ?ig k + 1) else attempts ?ig k),
               lastSent := 20000000000\<rparr>
           = groupOf [(''ORD_000'', exItem ''ORD_000'' ''0'', 2)] 20000000000"
    by (simp add: groupOf_def attemptsOf_def att_def m fun_eq_iff)
  have r: "map snd (filter (\<lambda>(k, it). attemptsOf ?ig k < MaxRetry cfgExample)
                      (rangeItems ?ig [''ORD_000''])) = [exItem ''ORD_000'' ''0'']"
    by (simp add: rangeItems_single l m)
  have 1: "retryVisit cfgExample 20000000000 [''ORD_000''] ''JP101'' ?ig
     = (groupOf [(''ORD_000'', exItem ''ORD_000'' ''0'', 2)] 20000000000,
        Some \<lparr>startMsg = ''start retrying...'', taskGroup = ''JP101'',
              batch = [exItem ''ORD_000'' ''0'']\<rparr>)"
    using retryVisit_policy [OF h, of cfgExample 20000000000 "''JP101''", unfolded Let_def,
        THEN conjunct2, THEN conjunct2, THEN conjunct1]
    unfolding u r by (simp add: m l)
  have 2: "retryVisit cfgExample 6000000000 [''ORD_000''] ''JP101'' ?ig = (?ig, None)"
    using retryVisit_policy [OF h, of cfgExample 6000000000 "''JP101''", unfolded Let_def,
        THEN conjunct2, THEN conjunct2, THEN conjunct1]
    by (simp add: m l)
  have 3: "retryVisit cfgExample 20000000000 [''ORD_000''] ''JP101'' ?ig3 = (?ig3, None)"
    using retryVisit_policy [OF h3, of cfgExample 20000000000 "''JP101''", unfolded Let_def,
        THEN conjunct2, THEN conjunct2, THEN conjunct1]
    by (simp add: m l3)
  from h h3 1 2 3 show ?thesis by (intro conjI)
qed

text \<open>
  C3, as the claim states it, fails when \<open>MaxRetry\<close> is 0: the dispatch loop sends an
  unsent item whatever \<open>MaxRetry\<close> is, and its attempt count becomes 1.
\<close>

theorem MaxRetry_zero_counterexample:
  "reachable cfgNoRetry (dispatchedOnce cfgNoRetry 1700000000000000001) \<and>
   present ''JP101'' ''ORD_000'' (dispatchedOnce cfgNoRetry 1700000000000000001) \<and>
   attemptsAt ''JP101'' ''ORD_000'' (dispatchedOnce cfgNoRetry 1700000000000000001) = 1 \<and>
   MaxRetry cfgNoRetry = 0"
proof -
  have "FlushAfter cfgNoRetry = 1000000000" "BatchSize cfgNoRetry = 2" "MaxRetry cfgNoRetry = 0"
    by (simp_all add: cfgNoRetry_def cfgExample_def)
  with reachable_dispatchedOnce [of cfgNoRetry] attemptsAt_dispatchedOnce [of cfgNoRetry]
  show ?thesis by simp
qed

text \<open>
  C3, amended. Along every run of \<open>Add\<close>, \<open>Ack\<close>, dispatch visits and retry visits (a
  tick is a run of visits) and \<open>Stop\<close> from a reachable engine, the stored attempt count
  of a key does not decrease
  as long as the key stays among the items of its group; it is never negative and never
  exceeds \<open>max 1 MaxRetry\<close>, hence never \<open>MaxRetry\<close> when \<open>MaxRetry\<close> is at least 1; and
  in every state of the run a retry visit neither changes the count of an item whose
  count has reached \<open>MaxRetry\<close> nor puts the item in its batch.
\<close>

theorem attempts_monotone_bounded:
  assumes r: "reachable c e" and p: "path e es" and pr: "\<forall>s \<in> set es. present g k s"
  shows "attemptsAt g k e \<le> attemptsAt g k (last (e # es)) \<and>
         (\<forall>s \<in> set (e # es). 0 \<le> attemptsAt g k s \<and> attemptsAt g k s \<le> max 1 (MaxRetry c)) \<and>
         (\<forall>s \<in> set (e # es). \<forall>ig order it now ig' t.
            cache s g = Some ig \<and> rangeOrder ig order \<and> items ig k = Some it \<and>
            MaxRetry c \<le> attemptsOf ig k \<and> retryVisit c now order g ig = (ig', t)
            \<longrightarrow> attemptsOf ig' k = attemptsOf ig k \<and> (\<forall>tk. t = Some tk \<longrightarrow> it \<notin> set (batch tk)))"
proof -
  from r have inv: "engineInv c e" by (rule reachable_engineInv)
  from engineInv_path_all [OF p inv] have all: "\<forall>s \<in> set (e # es). engineInv c s" .
  have 1: "attemptsAt g k e \<le> attemptsAt g k (last (e # es))" by (rule path_mono [OF p pr])
  have 2: "\<forall>s \<in> set (e # es). 0 \<le> attemptsAt g k s \<and> attemptsAt g k s \<le> max 1 (MaxRetry c)"
    using all engineInv_bound by blast
  have 3: "\<forall>s \<in> set (e # es). \<forall>ig order it now ig' t.
            cache s g = Some ig \<and> rangeOrder ig order \<and> items ig k = Some it \<and>
            MaxRetry c \<le> attemptsOf ig k \<and> retryVisit c now order g ig = (ig', t)
            \<longrightarrow> attemptsOf ig' k = attemptsOf ig k \<and> (\<forall>tk. t = Some tk \<longrightarrow> it \<notin> set (batch tk))"
  proof (intro ballI allI impI)
    fix s ig order it now ig' t
    assume s: "s \<in> set (e # es)"
      and a: "cache s g = Some ig \<and> rangeOrder ig order \<and> items ig k = Some it \<and>
            MaxRetry c \<le> attemptsOf ig k \<and> retryVisit c now order g ig = (ig', t)"
    from s all have "engineInv c s" by blast
    with a have "groupInv c ig" by (auto simp: engineInv_def)
    moreover from a have "rangeOrder ig order" "items ig k = Some it"
      "MaxRetry c \<le> attemptsOf ig k" "retryVisit c now order g ig = (ig', t)" by simp_all
    ultimately show "attemptsOf ig' k = attemptsOf ig k \<and> (\<forall>tk. t = Some tk \<longrightarrow> it \<notin> set (batch tk))"
      by (rule retry_excludes_exhausted)
  qed
  from 1 2 3 show ?thesis by blast
qed

theorem attempts_monotone_bounded_witness:
  "reachable cfgOnce (Add (exItem ''ORD_000'' ''0'') (NewEngine cfgOnce)) \<and>
   path (Add (exItem ''ORD_000'' ''0'') (NewEngine cfgOnce))
        [dispatchedOnce cfgOnce 1700000000000000001] \<and>
   present ''JP101'' ''ORD_000'' (dispatchedOnce cfgOnce 1700000000000000001) \<and>
   attemptsAt ''JP101'' ''ORD_000'' (Add (exItem ''ORD_000'' ''0'') (NewEngine cfgOnce)) = 0 \<and>
   attemptsAt ''JP101'' ''ORD_000'' (dispatchedOnce cfgOnce 1700000000000000001) = 1 \<and>
   max 1 (MaxRetry cfgOnce) = 1 \<and>
   attemptsOf
     (fst (retryVisit cfgOnce 1700000011000000001 [''ORD_000''] ''JP101''
             (groupOf [(''ORD_000'', exItem ''ORD_000'' ''0'', 1)] 1700000000000000001)))
     ''ORD_000'' = 1 \<and>
   snd (retryVisit cfgOnce 1700000011000000001 [''ORD_000''] ''JP101''
          (groupOf [(''ORD_000'', exItem ''ORD_000'' ''0'', 1)] 1700000000000000001)) = None"
proof -
  let ?e = "Add (exItem ''ORD_000'' ''0'') (NewEngine cfgOnce)"
  let ?e' = "dispatchedOnce cfgOnce 1700000000000000001"
  let ?ig = "groupOf [(''ORD_000'', exItem ''ORD_000'' ''0'', 1)] 1700000000000000001"
  let ?v = "retryVisit cfgOnce 1700000011000000001 [''ORD_000''] ''JP101'' ?ig"
  have cf: "FlushAfter cfgOnce = 1000000000" "BatchSize cfgOnce = 2" "MaxRetry cfgOnce = 1"
    "RetryAfter cfgOnce = 10000000000"
    by (simp_all add: cfgOnce_def cfgExample_def)
  have h1: "reachable cfgOnce ?e" by (intro reachable_step [OF _ stepAdd] reachable_New)
  have h2: "path ?e [?e']" using step_dispatchedOnce [OF cf(1,2)] by simp
  have h3: "\<forall>s \<in> set [?e']. present ''JP101'' ''ORD_000'' s"
    by (simp add: attemptsAt_dispatchedOnce)
  have a0: "attemptsAt ''JP101'' ''ORD_000'' ?e = 0"
    by (simp add: attemptsAt_def Add_def NewEngine_def newItemGroup_def exItem_def
        attemptsOf_def att_def)
  have g: "cache ?e' ''JP101'' = Some ?ig" by (simp add: dispatchedOnce_def)
  have i: "items ?ig ''ORD_000'' = Some (exItem ''ORD_000'' ''0'')" by (simp add: groupOf_def)
  have a1: "attemptsOf ?ig ''ORD_000'' = 1" by (rule attemptsOf_single)
  have m: "MaxRetry cfgOnce \<le> attemptsOf ?ig ''ORD_000''" by (simp add: cf a1)
  have o: "rangeOrder ?ig [''ORD_000'']" by (rule rangeOrder_single)
  have s: "?e' \<in> set (?e # [?e'])" by simp
  have v: "?v = (fst ?v, snd ?v)" by simp
  note inst = attempts_monotone_bounded [OF h1 h2 h3]
  note excl = inst [THEN conjunct2, THEN conjunct2, THEN bspec, OF s, rule_format]
  from g o i m v have "cache ?e' ''JP101'' = Some ?ig \<and> rangeOrder ?ig [''ORD_000''] \<and>
       items ?ig ''ORD_000'' = Some (exItem ''ORD_000'' ''0'') \<and>
       MaxRetry cfgOnce \<le> attemptsOf ?ig ''ORD_000'' \<and> ?v = (fst ?v, snd ?v)"
    by (intro conjI)
  then have "attemptsOf (fst ?v) ''ORD_000'' = attemptsOf ?ig ''ORD_000''"
    by (rule excl [THEN conjunct1])
  then have ex: "attemptsOf (fst ?v) ''ORD_000'' = 1" by (simp only: a1)
  have l: "lastSent ?ig = 1700000000000000001" "dom (items ?ig) = {''ORD_000''}"
    "attempts ?ig = [''ORD_000'' \<mapsto> 1]"
    by (simp_all add: groupOf_def)
  have n: "snd ?v = None"
    by (simp add: retryVisit_def rangeItems_single l cf att_def)
  have mx: "max 1 (MaxRetry cfgOnce) = 1" by (simp add: cf)
  from h3 have h3': "present ''JP101'' ''ORD_000'' ?e'" by simp
  from h1 h2 h3' a0 attemptsAt_dispatchedOnce(1) [of cfgOnce 1700000000000000001] mx ex n
  show ?thesis by (intro conjI)
qed

text \<open>
  C4. Claim: every logger invocation is guarded against a missing logger, so that with
  \<open>Config.Logger\<close> nil neither the ticks nor the submitted tasks, their recovery branch
  included, panic. The code calls \<open>e.cfg.Logger\<close> unguarded: with a nil logger the first
  statement of the task panics, the deferred function recovers that panic and calls the
  nil logger again, and this second panic leaves the task. Here the dispatch loop visits
  a group holding one unsent item and the task it submits is run; a task of the retry
  loop ends the same way.
\<close>

theorem nil_Logger_task_panics:
  "dispatchVisit cfgNoLogger 1700000000000000000 1700000000000000001 [''ORD_000''] ''JP101''
       (groupOf [(''ORD_000'', exItem ''ORD_000'' ''0'', 0)] 0)
     = Inr (groupOf [(''ORD_000'', exItem ''ORD_000'' ''0'', 1)] 1700000000000000001,
            Some \<lparr>startMsg = ''start dispatch...'', taskGroup = ''JP101'',
                  batch = [exItem ''ORD_000'' ''0'']\<rparr>)
   \<and> runTask cfgNoLogger
         \<lparr>startMsg = ''start dispatch...'', taskGroup = ''JP101'',
          batch = [exItem ''ORD_000'' ''0'']\<rparr>
     = ([], Some NilDereference)
   \<and> runTask cfgNoLogger
         \<lparr>startMsg = ''start retrying...'', taskGroup = ''JP101'',
          batch = [exItem ''ORD_000'' ''0'']\<rparr>
     = ([], Some NilDereference)"
  by (simp add: dispatchVisit_def unsentOf_single shouldFlush_def Let_def)
     (simp add: cfgNoLogger_def cfgExample_def groupOf_def
        runTask_def taskBody_def callLogger_def att_def exItem_def fun_eq_iff)

text \<open>
  C5. A panic raised by the dispatch callback, the call of a nil \<open>OnDispatch\<close> included,
  is recovered by the deferred function of the task and handed to the logger: the task
  ends with what the logger's warning call does, so it returns normally when the logger
  returns. The callback is reached when the logger is there and has returned from the
  start message. Neither loop reads the callback or the logger: the visit of a group
  gives the same record and the same task whatever they are.
\<close>

theorem callback_panic_recovered:
  assumes "Logger c = Some lg" and "lg (startMsg t) [] = None"
    and "callOnDispatch c (taskGroup t) (batch t) = (ev, Some p)"
  shows "runTask c t =
           (Logged (startMsg t) [] # ev @ [Logged ''[WARN] dispatch panic: %v'' [p]],
            lg ''[WARN] dispatch panic: %v'' [p])
         \<and> (lg ''[WARN] dispatch panic: %v'' [p] = None \<longrightarrow> snd (runTask c t) = None)
         \<and> dispatchVisit (c\<lparr>OnDispatch := f, Logger := l\<rparr>) now now' order k ig
             = dispatchVisit c now now' order k ig
         \<and> retryVisit (c\<lparr>OnDispatch := f, Logger := l\<rparr>) now order k ig
             = retryVisit c now order k ig"
proof -
  have retryScan_indep:
    "retryScan (c\<lparr>OnDispatch := f, Logger := l\<rparr>) xs a acc = retryScan c xs a acc"
    for xs a acc
    by (induction xs arbitrary: a acc) auto
  have 1: "runTask c t =
           (Logged (startMsg t) [] # ev @ [Logged ''[WARN] dispatch panic: %v'' [p]],
            lg ''[WARN] dispatch panic: %v'' [p])"
    using assms by (simp add: runTask_def taskBody_def callLogger_def)
  have 2: "dispatchVisit (c\<lparr>OnDispatch := f, Logger := l\<rparr>) now now' order k ig
             = dispatchVisit c now now' order k ig"
    by (simp add: dispatchVisit_def shouldFlush_def Let_def)
  have 3: "retryVisit (c\<lparr>OnDispatch := f, Logger := l\<rparr>) now order k ig
             = retryVisit c now order k ig"
    by (simp add: retryVisit_def retryScan_indep)
  from 1 2 3 show ?thesis by simp
qed

theorem callback_panic_recovered_witness:
  "Logger cfgNilCallback = Some (\<lambda>f a. None) \<and>
   callOnDispatch cfgNilCallback ''JP101'' [exItem ''ORD_000'' ''0''] = ([], Some NilDereference) \<and>
   runTask cfgNilCallback
       \<lparr>startMsg = ''start dispatch...'', taskGroup = ''JP101'', batch = [exItem ''ORD_000'' ''0'']\<rparr>
     = ([Logged ''start dispatch...'' [], Logged ''[WARN] dispatch panic: %v'' [NilDereference]],
        None)"
proof -
  let ?t = "\<lparr>startMsg = ''start dispatch...'', taskGroup = ''JP101'',
             batch = [exItem ''ORD_000'' ''0'']\<rparr>"
  have h1: "Logger cfgNilCallback = Some (\<lambda>f a. None)"
    by (simp add: cfgNilCallback_def cfgExample_def)
  have h2: "(\<lambda>f a. None :: panic option) (startMsg ?t) [] = None"
    by simp
  have h3: "callOnDispatch cfgNilCallback (taskGroup ?t) (batch ?t) = ([], Some NilDereference)"
    by (simp add: callOnDispatch_def cfgNilCallback_def cfgExample_def)
  from callback_panic_recovered [OF h1 h2 h3] h1 h3 show ?thesis by simp
qed

text \<open>
  C6. \<open>Ack\<close> is idempotent: acknowledging the same keys of the same group a second time
  leaves the engine as the first call left it, and \<open>Ack\<close> on a group the cache does not
  hold changes nothing. \<open>Ack\<close> has no failing branch.
\<close>

theorem Ack_idempotent:
  "Ack grp keys (Ack grp keys e) = Ack grp keys e \<and>
   (cache e grp = None \<longrightarrow> Ack grp keys e = e)"
  by (cases "cache e grp") (simp_all add: Ack_def ackKeys_twice)

theorem Ack_idempotent_witness:
  "cache (NewEngine cfgExample) ''JP101'' = None \<and>
   Ack ''JP101'' [''ORD_000''] (NewEngine cfgExample) = NewEngine cfgExample"
  using Ack_idempotent [of "''JP101''" "[''ORD_000'']" "NewEngine cfgExample"]
  by (simp add: NewEngine_def)

text \<open>
  C7. \<open>Add\<close> of an item whose key is already in the items of its group replaces the
  stored item and nothing else: the other items, every attempt count (that of the key
  too), \<open>lastSent\<close>, the records of the other groups, the configuration and the stop
  channel stay as they were.
\<close>

theorem Add_overwrite_frame:
  assumes "cache e (Group item) = Some ig" and "items ig (Key item) = Some old"
  shows "\<exists>ig'. cache (Add item e) (Group item) = Some ig' \<and>
           items ig' (Key item) = Some item \<and>
           (\<forall>k. k \<noteq> Key item \<longrightarrow> items ig' k = items ig k) \<and>
           attempts ig' = attempts ig \<and>
           lastSent ig' = lastSent ig \<and>
           (\<forall>g. g \<noteq> Group item \<longrightarrow> cache (Add item e) g = cache e g) \<and>
           cfg (Add item e) = cfg e \<and> stop (Add item e) = stop e"
  using assms by (simp add: Add_def)

theorem Add_overwrite_frame_witness:
  "cache (NewEngine cfgExample\<lparr>cache := [''JP101'' \<mapsto> groupOf [(''ORD_000'', exItem ''ORD_000'' ''0'', 2)] 5]\<rparr>)
       (Group (exItem ''ORD_000'' ''new''))
     = Some (groupOf [(''ORD_000'', exItem ''ORD_000'' ''0'', 2)] 5) \<and>
   items (groupOf [(''ORD_000'', exItem ''ORD_000'' ''0'', 2)] 5) (Key (exItem ''ORD_000'' ''new''))
     = Some (exItem ''ORD_000'' ''0'') \<and>
   (\<exists>ig'. cache (Add (exItem ''ORD_000'' ''new'')
                (NewEngine cfgExample\<lparr>cache := [''JP101'' \<mapsto> groupOf [(''ORD_000'', exItem ''ORD_000'' ''0'', 2)] 5]\<rparr>))
              ''JP101'' = Some ig' \<and>
          items ig' ''ORD_000'' = Some (exItem ''ORD_000'' ''new'') \<and>
          attempts ig' ''ORD_000'' = Some 2 \<and> lastSent ig' = 5)"
proof -
  let ?ig = "groupOf [(''ORD_000'', exItem ''ORD_000'' ''0'', 2)] 5"
  let ?e = "NewEngine cfgExample\<lparr>cache := [''JP101'' \<mapsto> ?ig]\<rparr>"
  let ?item = "exItem ''ORD_000'' ''new''"
  have h1: "cache ?e (Group ?item) = Some ?ig"
    by (simp add: exItem_def)
  have h2: "items ?ig (Key ?item) = Some (exItem ''ORD_000'' ''0'')"
    by (simp add: exItem_def groupOf_def)
  have g: "Group ?item = ''JP101''" "Key ?item = ''ORD_000''"
    by (simp_all add: exItem_def)
  have a: "attempts ?ig ''ORD_000'' = Some 2" "lastSent ?ig = 5"
    by (simp_all add: groupOf_def)
  from Add_overwrite_frame [OF h1 h2] obtain ig' where
    "cache (Add ?item ?e) (Group ?item) = Some ig'" "items ig' (Key ?item) = Some ?item"
    "attempts ig' = attempts ?ig" "lastSent ig' = lastSent ?ig"
    by blast
  with g a have "cache (Add ?item ?e) ''JP101'' = Some ig' \<and>
          items ig' ''ORD_000'' = Some ?item \<and>
          attempts ig' ''ORD_000'' = Some 2 \<and> lastSent ig' = 5"
    by simp
  with h1 h2 show ?thesis by blast
qed

text \<open>
  C8, as the claim states it, fails when the clock of the tick does not exceed
  \<open>FlushAfter\<close>: the dispatch loop compares \<open>now - lastSent\<close> with \<open>FlushAfter\<close> and does
  nothing else for \<open>lastSent = 0\<close>, which therefore stands for the Unix epoch. With a
  flush deadline of one hour and a clock reading one minute after the epoch, a group
  that was never dispatched and holds one unsent item is not flushed.
\<close>

theorem clock_below_FlushAfter_counterexample:
  "lastSent (groupOf [(''ORD_000'', exItem ''ORD_000'' ''0'', 0)] 0) = 0 \<and>
   unsentOf (groupOf [(''ORD_000'', exItem ''ORD_000'' ''0'', 0)] 0) [''ORD_000'']
     = [exItem ''ORD_000'' ''0''] \<and>
   \<not> shouldFlush cfgHourly 60000000000 (groupOf [(''ORD_000'', exItem ''ORD_000'' ''0'', 0)] 0)
       [exItem ''ORD_000'' ''0''] \<and>
   dispatchVisit cfgHourly 60000000000 60000000001 [''ORD_000''] ''JP101''
       (groupOf [(''ORD_000'', exItem ''ORD_000'' ''0'', 0)] 0)
     = Inr (groupOf [(''ORD_000'', exItem ''ORD_000'' ''0'', 0)] 0, None)"
proof -
  let ?ig = "groupOf [(''ORD_000'', exItem ''ORD_000'' ''0'', 0)] 0"
  have h1: "lastSent ?ig = 0" by (simp add: groupOf_def)
  have u: "unsentOf ?ig [''ORD_000''] = [exItem ''ORD_000'' ''0'']" by (rule unsentOf_single)
  have f: "\<not> shouldFlush cfgHourly 60000000000 ?ig [exItem ''ORD_000'' ''0'']"
    by (simp add: shouldFlush_def cfgHourly_def cfgExample_def h1)
  then have "dispatchVisit cfgHourly 60000000000 60000000001 [''ORD_000''] ''JP101'' ?ig = Inr (?ig, None)"
    by (simp add: dispatchVisit_def u)
  with h1 u f show ?thesis by blast
qed

text \<open>
  C8, amended. For every group record with \<open>lastSent = 0\<close> and at least one unsent item,
  the flush condition holds at a dispatch tick whose clock reading \<open>now\<close> (nanoseconds
  since the Unix epoch) is greater than \<open>FlushAfter\<close>, whether or not the number of unsent
  items reaches \<open>BatchSize\<close>; below \<open>BatchSize\<close> the tick dispatches all the unsent
  items.
\<close>

theorem never_dispatched_group_flushes:
  assumes "lastSent ig = 0" and "unsentOf ig order \<noteq> []" and "sint (FlushAfter c) < sint now"
  shows "shouldFlush c now ig (unsentOf ig order) \<and>
         (int (length (unsentOf ig order)) < BatchSize c \<longrightarrow>
            dispatchVisit c now now' order k ig =
              Inr (ig\<lparr>attempts := bumpAll (unsentOf ig order) (attempts ig), lastSent := now'\<rparr>,
                   Some \<lparr>startMsg = ''start dispatch...'', taskGroup = k,
                         batch = unsentOf ig order\<rparr>))"
  using assms by (simp add: shouldFlush_def dispatchVisit_def Let_def min_def)

theorem never_dispatched_group_flushes_witness:
  "lastSent (groupOf [(''ORD_000'', exItem ''ORD_000'' ''0'', 0)] 0) = 0 \<and>
   unsentOf (groupOf [(''ORD_000'', exItem ''ORD_000'' ''0'', 0)] 0) [''ORD_000''] \<noteq> [] \<and>
   sint (FlushAfter cfgExample) < sint (1700000000000000000 :: int64) \<and>
   int (length (unsentOf (groupOf [(''ORD_000'', exItem ''ORD_000'' ''0'', 0)] 0) [''ORD_000'']))
     < BatchSize cfgExample \<and>
   dispatchVisit cfgExample 1700000000000000000 1700000000000000001 [''ORD_000''] ''JP101''
       (groupOf [(''ORD_000'', exItem ''ORD_000'' ''0'', 0)] 0)
     = Inr (groupOf [(''ORD_000'', exItem ''ORD_000'' ''0'', 1)] 1700000000000000001,
            Some \<lparr>startMsg = ''start dispatch...'', taskGroup = ''JP101'',
                  batch = [exItem ''ORD_000'' ''0'']\<rparr>)"
proof -
  let ?ig = "groupOf [(''ORD_000'', exItem ''ORD_000'' ''0'', 0)] 0"
  have h1: "lastSent ?ig = 0" by (simp add: groupOf_def)
  have u: "unsentOf ?ig [''ORD_000''] = [exItem ''ORD_000'' ''0'']" by (rule unsentOf_single)
  then have h2: "unsentOf ?ig [''ORD_000''] \<noteq> []" by simp
  have h3: "sint (FlushAfter cfgExample) < sint (1700000000000000000 :: int64)"
    by (simp add: cfgExample_def)
  have h4: "int (length (unsentOf ?ig [''ORD_000''])) < BatchSize cfgExample"
    by (simp add: u cfgExample_def)
  have "ig\<lparr>attempts := bumpAll [exItem ''ORD_000'' ''0''] (attempts ig), lastSent := t\<rparr>
        = groupOf [(''ORD_000'', exItem ''ORD_000'' ''0'', 1)] t"
    if "ig = ?ig" for ig t
    using that by (simp add: groupOf_def exItem_def att_def)
  with never_dispatched_group_flushes [OF h1 h2 h3, of 1700000000000000001 "''JP101''"] h4 u
  have "dispatchVisit cfgExample 1700000000000000000 1700000000000000001 [''ORD_000''] ''JP101'' ?ig
     = Inr (groupOf [(''ORD_000'', exItem ''ORD_000'' ''0'', 1)] 1700000000000000001,
            Some \<lparr>startMsg = ''start dispatch...'', taskGroup = ''JP101'',
                  batch = [exItem ''ORD_000'' ''0'']\<rparr>)"
    by simp
  with h1 h2 h3 h4 show ?thesis by blast
qed

text \<open>
  C9, as the claim states it, fails when \<open>MaxRetry\<close> is 0: no attempt count is below
  \<open>MaxRetry\<close>, so the retry loop selects nothing, and an item with attempt count 0 of a
  group that is eligible for retry stays undispatched.
\<close>

theorem retry_MaxRetry_zero_counterexample:
  "lastSent (groupOf [(''ORD_001'', exItem ''ORD_001'' ''1'', 0)] 5000000000) \<noteq> 0 \<and>
   sint (RetryAfter cfgNoRetry)
     < sint (20000000000 - lastSent (groupOf [(''ORD_001'', exItem ''ORD_001'' ''1'', 0)] 5000000000)) \<and>
   items (groupOf [(''ORD_001'', exItem ''ORD_001'' ''1'', 0)] 5000000000) ''ORD_001''
     = Some (exItem ''ORD_001'' ''1'') \<and>
   attemptsOf (groupOf [(''ORD_001'', exItem ''ORD_001'' ''1'', 0)] 5000000000) ''ORD_001'' = 0 \<and>
   retryVisit cfgNoRetry 20000000000 [''ORD_001''] ''JP101''
       (groupOf [(''ORD_001'', exItem ''ORD_001'' ''1'', 0)] 5000000000)
     = (groupOf [(''ORD_001'', exItem ''ORD_001'' ''1'', 0)] 5000000000, None)"
proof -
  let ?ig = "groupOf [(''ORD_001'', exItem ''ORD_001'' ''1'', 0)] 5000000000"
  have l: "lastSent ?ig = 5000000000" "dom (items ?ig) = {''ORD_001''}"
    "attempts ?ig = [''ORD_001'' \<mapsto> 0]" "items ?ig ''ORD_001'' = Some (exItem ''ORD_001'' ''1'')"
    by (simp_all add: groupOf_def)
  have m: "MaxRetry cfgNoRetry = 0" "RetryAfter cfgNoRetry = 10000000000"
    by (simp_all add: cfgNoRetry_def cfgExample_def)
  have "retryVisit cfgNoRetry 20000000000 [''ORD_001''] ''JP101'' ?ig = (?ig, None)"
    by (simp add: retryVisit_def rangeItems_single l m att_def)
  with l m attemptsOf_single [of "''ORD_001''" "exItem ''ORD_001'' ''1''" 0 5000000000]
  show ?thesis by simp
qed

text \<open>
  C9, amended. When \<open>MaxRetry\<close> is at least 1 and a group is eligible for retry (it has
  items, \<open>lastSent\<close> is not 0, and \<open>now - lastSent\<close> is not below \<open>RetryAfter\<close>), the
  retry batch includes every item with attempt count 0: its count goes from 0 to 1 in the
  retry loop. The batch is made of all the items below \<open>MaxRetry\<close> and \<open>BatchSize\<close> plays
  no part in it.
\<close>

theorem retry_dispatches_unsent:
  assumes "rangeOrder ig order" and "items ig k = Some it" and "attemptsOf ig k = 0"
    and "lastSent ig \<noteq> 0" and "\<not> sint (now - lastSent ig) < sint (RetryAfter c)"
    and "0 < MaxRetry c"
  shows "\<exists>ig' t. retryVisit c now order grp ig = (ig', Some t) \<and>
           it \<in> set (batch t) \<and> attemptsOf ig' k = 1 \<and> lastSent ig' = now \<and>
           set (batch t) = {i. \<exists>j. items ig j = Some i \<and> attemptsOf ig j < MaxRetry c} \<and>
           length (batch t) = card {j \<in> dom (items ig). attemptsOf ig j < MaxRetry c} \<and>
           retryVisit (c\<lparr>BatchSize := n\<rparr>) now order grp ig = retryVisit c now order grp ig"
proof -
  let ?r = "map snd (filter (\<lambda>(k, it). attemptsOf ig k < MaxRetry c) (rangeItems ig order))"
  have s: "set ?r = {i. \<exists>j. items ig j = Some i \<and> attemptsOf ig j < MaxRetry c}"
    by (rule retry_batch_set [OF assms(1)])
  with assms have "it \<in> set ?r" by auto
  then have ne: "?r \<noteq> []" by (metis empty_iff empty_set)
  from assms(2) have d: "dom (items ig) \<noteq> {}" by auto
  let ?ig' = "ig\<lparr>attempts := (\<lambda>k. if k \<in> dom (items ig) \<and> attemptsOf ig k < MaxRetry c
                                  then Some (attemptsOf ig k + 1) else attempts ig k),
                  lastSent := now\<rparr>"
  let ?t = "\<lparr>startMsg = ''start retrying...'', taskGroup = grp, batch = ?r\<rparr>"
  have v: "retryVisit c now order grp ig = (?ig', Some ?t)"
    using retryVisit_eq [OF assms(1), of c now grp] ne d assms(4,5) by (simp add: Let_def)
  have v': "retryVisit (c\<lparr>BatchSize := n\<rparr>) now order grp ig = (?ig', Some ?t)"
    using retryVisit_eq [OF assms(1), of "c\<lparr>BatchSize := n\<rparr>" now grp] ne d assms(4,5)
    by (simp add: Let_def)
  have a: "attemptsOf ?ig' k = 1"
    using assms(2,3,6) by (auto simp: attemptsOf_def att_def)
  have l: "length ?r = card {j \<in> dom (items ig). attemptsOf ig j < MaxRetry c}"
    by (rule retry_batch_length [OF assms(1)])
  from v v' a l s \<open>it \<in> set ?r\<close> show ?thesis by simp
qed

theorem retry_dispatches_unsent_witness:
  "rangeOrder (groupOf [(''ORD_001'', exItem ''ORD_001'' ''1'', 0)] 5000000000) [''ORD_001''] \<and>
   (\<exists>ig' t. retryVisit cfgExample 20000000000 [''ORD_001''] ''JP101''
               (groupOf [(''ORD_001'', exItem ''ORD_001'' ''1'', 0)] 5000000000) = (ig', Some t) \<and>
            exItem ''ORD_001'' ''1'' \<in> set (batch t) \<and> attemptsOf ig' ''ORD_001'' = 1)"
proof -
  let ?ig = "groupOf [(''ORD_001'', exItem ''ORD_001'' ''1'', 0)] 5000000000"
  have h1: "rangeOrder ?ig [''ORD_001'']" by (rule rangeOrder_single)
  have h2: "items ?ig ''ORD_001'' = Some (exItem ''ORD_001'' ''1'')" by (simp add: groupOf_def)
  have h3: "attemptsOf ?ig ''ORD_001'' = 0" by (rule attemptsOf_single)
  have h4: "lastSent ?ig \<noteq> 0" by (simp add: groupOf_def)
  have h5: "\<not> sint (20000000000 - lastSent ?ig) < sint (RetryAfter cfgExample)"
    by (simp add: groupOf_def cfgExample_def)
  have h6: "0 < MaxRetry cfgExample" by (simp add: cfgExample_def)
  from retry_dispatches_unsent [OF h1 h2 h3 h4 h5 h6, of "''JP101''" 0] h1 show ?thesis by blast
qed

text \<open>
  C10. The first \<open>Stop\<close> of a new engine closes the stop channel. After a \<open>Stop\<close> that
  returned, whatever steps the engine takes, a further \<open>Stop\<close> panics with the close of
  a closed channel.
\<close>

theorem Stop_twice_panics:
  "Stop (NewEngine c) = Inr ((NewEngine c)\<lparr>stop := Closed\<rparr>) \<and>
   (\<forall>e e' es. Stop e = Inr e' \<and> path e' es \<longrightarrow> Stop (last (e' # es)) = Inl CloseOfClosedChannel)"
proof (intro conjI allI impI)
  show "Stop (NewEngine c) = Inr ((NewEngine c)\<lparr>stop := Closed\<rparr>)"
    by (simp add: Stop_def NewEngine_def)
next
  fix e e' es
  assume a: "Stop e = Inr e' \<and> path e' es"
  then have "stop e' = Closed" by (auto simp: Stop_def split: chan.splits)
  with a have "stop (last (e' # es)) = Closed" by (blast intro: stop_path)
  then show "Stop (last (e' # es)) = Inl CloseOfClosedChannel" by (simp add: Stop_def)
qed

theorem Stop_twice_panics_witness:
  "Stop (NewEngine cfgExample) = Inr ((NewEngine cfgExample)\<lparr>stop := Closed\<rparr>) \<and>
   path ((NewEngine cfgExample)\<lparr>stop := Closed\<rparr>)
        [Add (exItem ''ORD_000'' ''0'') ((NewEngine cfgExample)\<lparr>stop := Closed\<rparr>)] \<and>
   Stop (Add (exItem ''ORD_000'' ''0'') ((NewEngine cfgExample)\<lparr>stop := Closed\<rparr>))
     = Inl CloseOfClosedChannel"
proof -
  let ?e' = "(NewEngine cfgExample)\<lparr>stop := Closed\<rparr>"
  let ?es = "[Add (exItem ''ORD_000'' ''0'') ?e']"
  have h1: "Stop (NewEngine cfgExample) = Inr ?e'"
    by (simp add: Stop_def NewEngine_def)
  have h2: "path ?e' ?es"
    by (simp add: stepAdd)
  from Stop_twice_panics [of cfgExample] have
    "Stop (NewEngine cfgExample) = Inr ?e' \<and> path ?e' ?es
       \<longrightarrow> Stop (last (?e' # ?es)) = Inl CloseOfClosedChannel"
    by blast
  with h1 h2 show ?thesis by simp
qed

end
